theory Spec2Isabelle
  imports Main
begin

section \<open>JavaScript strings\<close>

text \<open>
  A JavaScript string is a sequence of UTF-16 code units.  A code unit is modelled as a
  natural number and a string as a list of code units; \<open>js\<close> embeds an ASCII literal.
\<close>

type_synonym jsstring = "nat list"

definition cu :: "char \<Rightarrow> nat" where
  "cu c = of_char c"

definition js :: "string \<Rightarrow> jsstring" where
  "js s = map cu s"

text \<open>
  The code units matched by \<open>\s\<close> and stripped by \<open>trim()\<close>: the WhiteSpace and
  LineTerminator productions of ECMAScript (TAB, LF, VT, FF, CR, SP, NBSP, U+1680,
  U+2000 to U+200A, U+2028, U+2029, U+202F, U+205F, U+3000, U+FEFF).
\<close>

definition is_space :: "nat \<Rightarrow> bool" where
  "is_space c \<longleftrightarrow>
     (9 \<le> c \<and> c \<le> 13) \<or> c = 32 \<or> c = 160 \<or> c = 5760 \<or> (8192 \<le> c \<and> c \<le> 8202) \<or>
     c = 8232 \<or> c = 8233 \<or> c = 8239 \<or> c = 8287 \<or> c = 12288 \<or> c = 65279"

text \<open>
  Lower case of an ASCII letter.  Under the \<open>i\<close> flag (without \<open>u\<close>) a pattern character
  below 128 matches exactly the code units whose ASCII lower case is the same: the
  canonicalisation of ECMAScript never maps a code unit from 128 upwards to one below 128.
\<close>

definition lower :: "nat \<Rightarrow> nat" where
  "lower c = (if 65 \<le> c \<and> c \<le> 90 then c + 32 else c)"

text \<open>
  \<open>toLowerCase\<close> on ASCII strings, which is where the sources apply it: to the host name
  of a \<open>URL\<close> object.
\<close>

definition toLowerCase :: "jsstring \<Rightarrow> jsstring" where
  "toLowerCase s = map lower s"

text \<open>\<open>String.prototype.trim\<close>\<close>

definition trim :: "jsstring \<Rightarrow> jsstring" where
  "trim s = rev (dropWhile is_space (rev (dropWhile is_space s)))"

text \<open>\<open>s.split(',')[0]\<close>: the part of \<open>s\<close> before its first comma, all of \<open>s\<close> when it has none.\<close>

definition split_comma_first :: "jsstring \<Rightarrow> jsstring" where
  "split_comma_first s = takeWhile (\<lambda>c. c \<noteq> cu CHR '','') s"


section \<open>Regular expressions\<close>

text \<open>
  The fragment of regular expressions the sources use: character classes, sequence,
  alternation, and the greedy quantifiers \<open>*\<close>, \<open>+\<close>, \<open>?\<close>, where \<open>*\<close> and \<open>+\<close> are only ever
  applied to a character class.  \<open>rx_results r s\<close> lists, in the order a backtracking
  matcher tries them, the remainders of \<open>s\<close> after each way of matching \<open>r\<close> at the start
  of \<open>s\<close>; the match the engine reports is the first one.
\<close>

datatype rx =
    Cls "nat \<Rightarrow> bool"
  | Eps
  | Seq rx rx
  | Alt rx rx
  | StarC "nat \<Rightarrow> bool"

fun rx_results :: "rx \<Rightarrow> jsstring \<Rightarrow> jsstring list" where
  "rx_results (Cls P) [] = []"
| "rx_results (Cls P) (c # cs) = (if P c then [cs] else [])"
| "rx_results Eps s = [s]"
| "rx_results (Seq a b) s = concat (map (rx_results b) (rx_results a s))"
| "rx_results (Alt a b) s = rx_results a s @ rx_results b s"
| "rx_results (StarC P) [] = [[]]"
| "rx_results (StarC P) (c # cs) = (if P c then rx_results (StarC P) cs @ [c # cs] else [c # cs])"

definition rx_exec :: "rx \<Rightarrow> jsstring \<Rightarrow> jsstring option" where
  "rx_exec r s = (case rx_results r s of [] \<Rightarrow> None | rest # _ \<Rightarrow> Some rest)"

definition PlusC :: "(nat \<Rightarrow> bool) \<Rightarrow> rx" where
  "PlusC P = Seq (Cls P) (StarC P)"

definition Opt :: "rx \<Rightarrow> rx" where
  "Opt r = Alt r Eps"

definition seqs :: "rx list \<Rightarrow> rx" where
  "seqs rs = foldr Seq rs Eps"

text \<open>A literal character, case-sensitive and under the \<open>i\<close> flag, and literal text.\<close>

definition chr :: "char \<Rightarrow> rx" where
  "chr ch = Cls (\<lambda>c. c = cu ch)"

definition chr_i :: "char \<Rightarrow> rx" where
  "chr_i ch = Cls (\<lambda>c. lower c = lower (cu ch))"

definition lit :: "string \<Rightarrow> rx" where
  "lit w = seqs (map chr w)"

definition lit_i :: "string \<Rightarrow> rx" where
  "lit_i w = seqs (map chr_i w)"

text \<open>
  \<open>s.replace(r, replacement)\<close> for a pattern with the \<open>g\<close> flag and a replacement without
  \<open>$\<close>: the leftmost match is searched from the current index, replaced, and the search
  goes on behind it; after an empty match the index advances by one code unit.
\<close>

fun replace_all :: "rx \<Rightarrow> jsstring \<Rightarrow> jsstring \<Rightarrow> jsstring" where
  "replace_all r rep [] = (case rx_exec r [] of None \<Rightarrow> [] | Some rest \<Rightarrow> rep)"
| "replace_all r rep (c # cs) =
     (case rx_exec r (c # cs) of
        None \<Rightarrow> c # replace_all r rep cs
      | Some rest \<Rightarrow>
          if length rest < length (c # cs) then rep @ replace_all r rep rest
          else rep @ c # replace_all r rep cs)"

text \<open>
  JavaScript values, as far as the sources distinguish them: \<open>typeof v === 'string'\<close>,
  \<open>typeof v === 'object'\<close> and the truthiness of \<open>v\<close>.  An object is the list of its own
  properties in insertion order.
\<close>

datatype jsvalue =
    JUndefined
  | JNull
  | JBool bool
  | JNum int
  | JStr jsstring
  | JObj "(jsstring \<times> jsvalue) list"


text \<open>Truthiness of a value of type \<open>string | null | undefined\<close>.\<close>

fun truthy_str :: "jsstring option \<Rightarrow> bool" where
  "truthy_str None = False"
| "truthy_str (Some s) = (s \<noteq> [])"





section \<open>Rate limiter (src/lib/security/rate-limit.ts)\<close>

text \<open>
  \<open>RateLimitResult\<close> and the fields of \<open>InMemoryRateLimiter\<close>.  Timestamps, the window
  length and the maximum are JavaScript numbers; they are modelled as integers
  (\<open>Date.now()\<close> is an integer number of milliseconds).  The clock is an argument of every
  operation: \<open>now\<close> is the value \<open>Date.now()\<close> returns in that call.
\<close>

record RateLimitResult =
  allowed :: bool
  remaining :: int
  reset :: int
  limit :: int

record InMemoryRateLimiter =
  maxRequests :: int
  windowMs :: int
  requests :: "jsstring \<rightharpoonup> int list"

text \<open>\<open>this.requests.get(identifier) || []\<close>\<close>

definition timestamps_of :: "InMemoryRateLimiter \<Rightarrow> jsstring \<Rightarrow> int list" where
  "timestamps_of L identifier =
     (case requests L identifier of None \<Rightarrow> [] | Some ts \<Rightarrow> ts)"

definition check :: "InMemoryRateLimiter \<Rightarrow> int \<Rightarrow> jsstring \<Rightarrow> RateLimitResult \<times> InMemoryRateLimiter" where
  "check L now identifier =
     (let windowStart = now - windowMs L;
          timestamps = timestamps_of L identifier;
          validTimestamps = filter (\<lambda>ts. ts > windowStart) timestamps;
          ok = (int (length validTimestamps) < maxRequests L);
          validTimestamps' = (if ok then validTimestamps @ [now] else validTimestamps);
          L' = (if ok then L\<lparr>requests := (requests L)(identifier \<mapsto> validTimestamps')\<rparr> else L)
      in (\<lparr>allowed = ok,
           remaining = max 0 (maxRequests L - int (length validTimestamps')),
           reset = windowStart + windowMs L,
           limit = maxRequests L\<rparr>, L'))"

text \<open>\<open>reset(identifier)\<close>: \<open>this.requests.delete(identifier)\<close>\<close>

definition reset_identifier :: "InMemoryRateLimiter \<Rightarrow> jsstring \<Rightarrow> InMemoryRateLimiter" where
  "reset_identifier L identifier = L\<lparr>requests := (requests L)(identifier := None)\<rparr>"

text \<open>
  \<open>cleanup()\<close>: the loop visits every entry of the map once; each entry is either deleted
  or overwritten with its filtered list, independently of the others.
\<close>

definition cleanup :: "InMemoryRateLimiter \<Rightarrow> int \<Rightarrow> InMemoryRateLimiter" where
  "cleanup L now =
     L\<lparr>requests := (\<lambda>key.
        case requests L key of
          None \<Rightarrow> None
        | Some timestamps \<Rightarrow>
            (let valid = filter (\<lambda>ts. ts > now - windowMs L) timestamps
             in if length valid = 0 then None else Some valid))\<rparr>"

text \<open>The constructor: an empty map.\<close>

definition new_limiter :: "int \<Rightarrow> int \<Rightarrow> InMemoryRateLimiter" where
  "new_limiter m w = \<lparr>maxRequests = m, windowMs = w, requests = Map.empty\<rparr>"

text \<open>Sequences of operations, each with the clock value it reads.\<close>

datatype rl_op = Check jsstring | Reset jsstring | Cleanup

fun rl_step :: "InMemoryRateLimiter \<Rightarrow> int \<times> rl_op \<Rightarrow> InMemoryRateLimiter" where
  "rl_step L (now, Check i) = snd (check L now i)"
| "rl_step L (now, Reset i) = reset_identifier L i"
| "rl_step L (now, Cleanup) = cleanup L now"

definition rl_run :: "InMemoryRateLimiter \<Rightarrow> (int \<times> rl_op) list \<Rightarrow> InMemoryRateLimiter" where
  "rl_run L ops = foldl rl_step L ops"

text \<open>Successive \<open>check\<close> calls for one identifier at the given clock values.\<close>

fun check_seq :: "InMemoryRateLimiter \<Rightarrow> int list \<Rightarrow> jsstring \<Rightarrow> RateLimitResult list \<times> InMemoryRateLimiter" where
  "check_seq L [] i = ([], L)"
| "check_seq L (t # ts) i =
     (let (r, L') = check L t i; (rs, L'') = check_seq L' ts i in (r # rs, L''))"

text \<open>
  What every stored list satisfies when the clock never runs backwards: it holds at most
  \<open>maxRequests\<close> timestamps, none of them later than the current clock value.
\<close>

definition rl_inv :: "InMemoryRateLimiter \<Rightarrow> int \<Rightarrow> bool" where
  "rl_inv L now \<longleftrightarrow>
     (\<forall>k ts. requests L k = Some ts \<longrightarrow>
        int (length ts) \<le> maxRequests L \<and> (\<forall>t\<in>set ts. t \<le> now))"

text \<open>
  \<open>getClientIdentifier(request)\<close>.  The argument is \<open>request.headers.get\<close>: the value of a
  header, \<open>None\<close> for \<open>null\<close>.
\<close>

definition getClientIdentifier :: "(jsstring \<Rightarrow> jsstring option) \<Rightarrow> jsstring" where
  "getClientIdentifier headers_get =
     (let forwarded = headers_get (js ''x-forwarded-for'');
          realIp = headers_get (js ''x-real-ip'')
      in if truthy_str forwarded then
           (case forwarded of Some f \<Rightarrow> trim (split_comma_first f) | None \<Rightarrow> [])
         else if truthy_str realIp then
           (case realIp of Some r \<Rightarrow> r | None \<Rightarrow> [])
         else js ''unknown'')"

text \<open>Example requests: no proxy header at all, and an empty \<open>x-forwarded-for\<close> header.\<close>

definition headers_none :: "jsstring \<Rightarrow> jsstring option" where
  "headers_none name = None"

definition headers_forwarded :: "jsstring \<Rightarrow> jsstring option" where
  "headers_forwarded name =
     (if name = js ''x-forwarded-for'' then Some (js '' 203.0.113.7 , 10.0.0.1'') else None)"

definition headers_empty_forwarded :: "jsstring \<Rightarrow> jsstring option" where
  "headers_empty_forwarded name =
     (if name = js ''x-forwarded-for'' then Some []
      else if name = js ''x-real-ip'' then Some (js ''198.51.100.4'') else None)"

text \<open>The part of it that does not depend on the clock.\<close>

definition rl_len :: "InMemoryRateLimiter \<Rightarrow> bool" where
  "rl_len L \<longleftrightarrow> (\<forall>k ts. requests L k = Some ts \<longrightarrow> int (length ts) \<le> maxRequests L)"

section \<open>SSRF guard (src/lib/security/ssrf.ts)\<close>

text \<open>
  The fields of a \<open>URL\<close> object that \<open>validateUrl\<close> reads.  The parser \<open>new URL(urlString)\<close>
  belongs to the platform; it is an argument of the model, \<open>None\<close> when it throws.  The
  platform serialises an IPv6 host in square brackets, so that
  \<open>new URL('http://[fe80::1]/').hostname\<close> is \<open>'[fe80::1]'\<close>, and every \<open>hostname\<close> is ASCII.
\<close>

record URL =
  protocol :: jsstring
  hostname :: jsstring

datatype SSRFError = SSRFError jsstring

text \<open>
  \<open>PRIVATE_IP_RANGES\<close>.  Every pattern starts with \<open>^\<close>, so it is matched at index 0 only;
  the flag says whether the pattern ends with \<open>$\<close>.
\<close>

definition digit_range :: "char \<Rightarrow> char \<Rightarrow> nat \<Rightarrow> bool" where
  "digit_range lo hi c \<longleftrightarrow> cu lo \<le> c \<and> c \<le> cu hi"

definition hex_digit_i :: "nat \<Rightarrow> bool" where
  "hex_digit_i c \<longleftrightarrow> digit_range CHR ''0'' CHR ''9'' c \<or> digit_range CHR ''a'' CHR ''f'' (lower c)"

text \<open>\<open>/^172\.(1[6-9]|2[0-9]|3[01])\./\<close> and \<open>/^fd[0-9a-f]{2}:/i\<close>, without the \<open>^\<close>.\<close>

definition range_172 :: rx where
  "range_172 =
     seqs [lit ''172.'',
           Alt (Seq (chr CHR ''1'') (Cls (digit_range CHR ''6'' CHR ''9'')))
               (Alt (Seq (chr CHR ''2'') (Cls (digit_range CHR ''0'' CHR ''9'')))
                    (Seq (chr CHR ''3'') (Cls (digit_range CHR ''0'' CHR ''1'')))),
           lit ''.'']"

definition range_fd :: rx where
  "range_fd = seqs [lit_i ''fd'', Cls hex_digit_i, Cls hex_digit_i, lit_i '':'']"

definition PRIVATE_IP_RANGES :: "(rx \<times> bool) list" where
  "PRIVATE_IP_RANGES =
     [(lit ''127.'', False),
      (lit ''10.'', False),
      (range_172, False),
      (lit ''192.168.'', False),
      (lit ''169.254.'', False),
      (lit ''0.'', False),
      (lit ''::1'', True),
      (lit_i ''fe80:'', False),
      (lit_i ''fc00:'', False),
      (range_fd, False),
      (lit ''::'', True)]"

text \<open>\<open>range.test(hostname)\<close>\<close>

definition range_test :: "rx \<times> bool \<Rightarrow> jsstring \<Rightarrow> bool" where
  "range_test rng s =
     list_ex (\<lambda>rest. snd rng \<longrightarrow> rest = []) (rx_results (fst rng) s)"

definition ALLOWED_PROTOCOLS :: "jsstring list" where
  "ALLOWED_PROTOCOLS = [js ''http:'', js ''https:'']"

definition validateUrl :: "(jsstring \<Rightarrow> URL option) \<Rightarrow> jsstring \<Rightarrow> SSRFError + URL" where
  "validateUrl new_URL urlString =
     (case new_URL urlString of
        None \<Rightarrow> Inl (SSRFError (js ''Invalid URL format''))
      | Some url \<Rightarrow>
          if protocol url \<notin> set ALLOWED_PROTOCOLS then
            Inl (SSRFError (js ''Protocol '' @ [39] @ protocol url @ [39]
                            @ js '' is not allowed. Use HTTP or HTTPS.''))
          else
            (let host = toLowerCase (hostname url) in
             if host = js ''localhost'' \<or> host = js ''0.0.0.0'' then
               Inl (SSRFError (js ''Localhost access is not allowed''))
             else if list_ex (\<lambda>rng. range_test rng host) PRIVATE_IP_RANGES then
               Inl (SSRFError (js ''Private IP range access is not allowed''))
             else if host = js ''[::1]'' \<or> host = js ''::1'' then
               Inl (SSRFError (js ''IPv6 localhost access is not allowed''))
             else Inr url))"

definition isUrlSafe :: "(jsstring \<Rightarrow> URL option) \<Rightarrow> jsstring \<Rightarrow> bool" where
  "isUrlSafe new_URL urlString =
     (case validateUrl new_URL urlString of Inl e \<Rightarrow> False | Inr url \<Rightarrow> True)"

text \<open>
  The hosts the specification names, in its own words: \<open>10.*.*.*\<close>, \<open>172.16-31.*.*\<close>,
  \<open>192.168.*.*\<close>, \<open>169.254.*.*\<close>, \<open>127.*.*.*\<close>, \<open>0.*.*.*\<close>, read as prefixes of the host
  name, and \<open>localhost\<close>.
\<close>

definition starts_with :: "jsstring \<Rightarrow> jsstring \<Rightarrow> bool" where
  "starts_with s p \<longleftrightarrow> take (length p) s = p"

text \<open>\<open>172.16-31.\<close>: the prefix \<open>172.\<close>, a two-digit decimal number from 16 to 31, and a dot.\<close>

definition is_digit :: "nat \<Rightarrow> bool" where
  "is_digit c \<longleftrightarrow> 48 \<le> c \<and> c \<le> 57"

definition starts_with_172_16_31 :: "jsstring \<Rightarrow> bool" where
  "starts_with_172_16_31 h \<longleftrightarrow>
     starts_with h (js ''172.'') \<and>
     (case drop 4 h of
        a # b # c # rest \<Rightarrow>
          is_digit a \<and> is_digit b \<and> c = cu CHR ''.'' \<and>
          16 \<le> 10 * (a - 48) + (b - 48) \<and> 10 * (a - 48) + (b - 48) \<le> 31
      | _ \<Rightarrow> False)"

definition spec_private_host :: "jsstring \<Rightarrow> bool" where
  "spec_private_host h \<longleftrightarrow>
     starts_with h (js ''10.'') \<or>
     starts_with_172_16_31 h \<or>
     starts_with h (js ''192.168.'') \<or>
     starts_with h (js ''169.254.'') \<or>
     starts_with h (js ''127.'') \<or>
     starts_with h (js ''0.'') \<or>
     h = js ''localhost''"

text \<open>
  The other hosts the code rejects: the IPv6 patterns, which only a host written without
  brackets can match, and the two spellings of the IPv6 loopback.
\<close>

definition unbracketed_ipv6_private :: "jsstring \<Rightarrow> bool" where
  "unbracketed_ipv6_private h \<longleftrightarrow>
     h = js ''::1'' \<or> h = js ''::'' \<or>
     starts_with h (js ''fe80:'') \<or> starts_with h (js ''fc00:'') \<or>
     (starts_with h (js ''fd'') \<and>
      (case drop 2 h of
         a # b # c # rest \<Rightarrow> hex_digit_i a \<and> hex_digit_i b \<and> c = cu CHR '':''
       | _ \<Rightarrow> False))"

definition blocked_host :: "jsstring \<Rightarrow> bool" where
  "blocked_host h \<longleftrightarrow> spec_private_host h \<or> unbracketed_ipv6_private h \<or> h = js ''[::1]''"

definition ascii :: "jsstring \<Rightarrow> bool" where
  "ascii s \<longleftrightarrow> (\<forall>c\<in>set s. c < 128)"

text \<open>The checks of \<open>validateUrl\<close> on the lower-cased host name, taken together.\<close>

definition host_rejected :: "jsstring \<Rightarrow> bool" where
  "host_rejected host \<longleftrightarrow>
     host = js ''localhost'' \<or> host = js ''0.0.0.0'' \<or>
     list_ex (\<lambda>rng. range_test rng host) PRIVATE_IP_RANGES \<or>
     host = js ''[::1]'' \<or> host = js ''::1''"

text \<open>Example parsers: what \<open>new URL\<close> returns for the one string of the example.\<close>

definition parse_private :: "jsstring \<Rightarrow> URL option" where
  "parse_private s =
     (if s = js ''http://192.168.1.1/internal''
      then Some \<lparr>protocol = js ''http:'', hostname = js ''192.168.1.1''\<rparr> else None)"

definition parse_file :: "jsstring \<Rightarrow> URL option" where
  "parse_file s =
     (if s = js ''file:///etc/passwd''
      then Some \<lparr>protocol = js ''file:'', hostname = []\<rparr> else None)"

definition parse_public :: "jsstring \<Rightarrow> URL option" where
  "parse_public s =
     (if s = js ''https://example.com/public''
      then Some \<lparr>protocol = js ''https:'', hostname = js ''example.com''\<rparr> else None)"

definition parse_ntp :: "jsstring \<Rightarrow> URL option" where
  "parse_ntp s =
     (if s = js ''http://0.pool.ntp.org/''
      then Some \<lparr>protocol = js ''http:'', hostname = js ''0.pool.ntp.org''\<rparr> else None)"

definition parse_link_local :: "jsstring \<Rightarrow> URL option" where
  "parse_link_local s =
     (if s = js ''http://[fe80::1]/''
      then Some \<lparr>protocol = js ''http:'', hostname = js ''[fe80::1]''\<rparr> else None)"

definition parse_loopback6 :: "jsstring \<Rightarrow> URL option" where
  "parse_loopback6 s =
     (if s = js ''http://[::1]/''
      then Some \<lparr>protocol = js ''http:'', hostname = js ''[::1]''\<rparr> else None)"

text \<open>A string that \<open>toLowerCase\<close> leaves as it is.\<close>

definition lowered :: "jsstring \<Rightarrow> bool" where
  "lowered h \<longleftrightarrow> map lower h = h"


text \<open>
  A public domain host name, as the specification uses the words, read on the text of the
  name: two or more labels separated by dots, every label non-empty and made of letters,
  digits and hyphens, the last label beginning with a letter and not being \<open>localhost\<close>.  An
  address literal in brackets, a dotted IPv4 address, a single label such as \<open>localhost\<close> and
  a name with a trailing dot are not of that form.
\<close>

fun split_on :: "nat \<Rightarrow> jsstring \<Rightarrow> jsstring list" where
  "split_on d [] = [[]]"
| "split_on d (c # cs) =
     (if c = d then [] # split_on d cs
      else (case split_on d cs of l # ls \<Rightarrow> (c # l) # ls | [] \<Rightarrow> [[c]]))"

definition is_letter :: "nat \<Rightarrow> bool" where
  "is_letter c \<longleftrightarrow> (65 \<le> c \<and> c \<le> 90) \<or> (97 \<le> c \<and> c \<le> 122)"

definition label_char :: "nat \<Rightarrow> bool" where
  "label_char c \<longleftrightarrow> is_letter c \<or> is_digit c \<or> c = cu CHR ''-''"

definition public_domain_name :: "jsstring \<Rightarrow> bool" where
  "public_domain_name h \<longleftrightarrow>
     (let labels = split_on (cu CHR ''.'') h in
      2 \<le> length labels
      \<and> list_all (\<lambda>l. l \<noteq> [] \<and> list_all label_char l) labels
      \<and> is_letter (hd (last labels))
      \<and> toLowerCase (last labels) \<noteq> js ''localhost'')"
section \<open>Secret redaction (src/lib/logger.ts)\<close>

text \<open>The classes \<open>["\s:=]\<close>, \<open>[^\s",}]\<close>, \<open>\S\<close> and \<open>[^@\s]\<close>.\<close>

definition kv_sep :: "nat \<Rightarrow> bool" where
  "kv_sep c \<longleftrightarrow> c = cu CHR 0x22 \<or> is_space c \<or> c = cu CHR '':'' \<or> c = cu CHR ''=''"

definition kv_val :: "nat \<Rightarrow> bool" where
  "kv_val c \<longleftrightarrow> \<not> (is_space c \<or> c = cu CHR 0x22 \<or> c = cu CHR '','' \<or> c = cu CHR ''}'')"

definition non_space :: "nat \<Rightarrow> bool" where
  "non_space c \<longleftrightarrow> \<not> is_space c"

definition cred_char :: "nat \<Rightarrow> bool" where
  "cred_char c \<longleftrightarrow> \<not> (c = cu CHR ''@'' \<or> is_space c)"

text \<open>\<open>SENSITIVE_PATTERNS\<close>, in the order of the source; every pattern has the flags \<open>gi\<close>.\<close>

definition pat_password :: rx where
  "pat_password = seqs [lit_i ''password'', PlusC kv_sep, StarC kv_val]"

definition pat_token :: rx where
  "pat_token = seqs [lit_i ''token'', PlusC kv_sep, StarC kv_val]"

definition pat_api_key :: rx where
  "pat_api_key =
     seqs [lit_i ''api'', Opt (Cls (\<lambda>c. c = cu CHR ''_'' \<or> c = cu CHR ''-'')), lit_i ''key'',
           PlusC kv_sep, StarC kv_val]"

definition pat_secret :: rx where
  "pat_secret = seqs [lit_i ''secret'', PlusC kv_sep, StarC kv_val]"

definition pat_credential :: rx where
  "pat_credential = seqs [lit_i ''credential'', PlusC kv_sep, StarC kv_val]"

definition pat_bearer :: rx where
  "pat_bearer =
     seqs [lit_i ''authorization:'', StarC is_space, lit_i ''bearer'', PlusC is_space,
           PlusC non_space]"

definition pat_basic :: rx where
  "pat_basic =
     seqs [lit_i ''authorization:'', StarC is_space, lit_i ''basic'', PlusC is_space,
           PlusC non_space]"

definition pat_postgres :: rx where
  "pat_postgres =
     seqs [lit_i ''postgresq'', Opt (chr_i CHR ''l''), lit_i ''://'', PlusC cred_char,
           chr_i CHR ''@'']"

definition pat_mysql :: rx where
  "pat_mysql = seqs [lit_i ''mysql://'', PlusC cred_char, chr_i CHR ''@'']"

definition pat_mongodb :: rx where
  "pat_mongodb =
     seqs [lit_i ''mongodb'', Opt (lit_i ''+srv''), lit_i ''://'', PlusC cred_char,
           chr_i CHR ''@'']"

definition SENSITIVE_PATTERNS :: "rx list" where
  "SENSITIVE_PATTERNS =
     [pat_password, pat_token, pat_api_key, pat_secret, pat_credential,
      pat_bearer, pat_basic, pat_postgres, pat_mysql, pat_mongodb]"

definition REDACTED :: jsstring where
  "REDACTED = js ''[REDACTED]''"

definition redactSecrets :: "jsstring \<Rightarrow> jsstring" where
  "redactSecrets message = foldl (\<lambda>redacted pattern. replace_all pattern REDACTED redacted) message SENSITIVE_PATTERNS"




section \<open>Logger (src/lib/logger.ts)\<close>


text \<open>
  \<open>Logger.format\<close>.  \<open>JSON.stringify\<close> and the clock belong to the platform: \<open>stringify\<close> is
  an argument, \<open>isoTime\<close> is the value of \<open>new Date().toISOString()\<close> in this call.  An omitted
  \<open>meta\<close> is \<open>undefined\<close>.
\<close>





section \<open>Error envelope (lib/errors)\<close>

text \<open>
  The object \<open>body.error\<close>.  \<open>details\<close> is \<open>None\<close> when the property is not set.
\<close>

record ErrorBody =
  code :: jsstring
  message :: jsstring
  requestId :: jsstring
  details :: "jsvalue option"
















section \<open>Reasoning about the redaction passes\<close>

text \<open>
  The language of a pattern: the strings it can match.  \<open>rx_results\<close> lists exactly the
  remainders behind the prefixes of the input that lie in this language.
\<close>

fun lang :: "rx \<Rightarrow> jsstring set" where
  "lang (Cls P) = {[c] | c. P c}"
| "lang Eps = {[]}"
| "lang (Seq a b) = {x @ y | x y. x \<in> lang a \<and> y \<in> lang b}"
| "lang (Alt a b) = lang a \<union> lang b"
| "lang (StarC P) = {w. \<forall>c\<in>set w. P c}"

text \<open>A pattern hits a string when it matches at its first index; a string is free of a
  pattern when no suffix of it is hit.\<close>

definition hit :: "rx \<Rightarrow> jsstring \<Rightarrow> bool" where
  "hit p s \<longleftrightarrow> rx_exec p s \<noteq> None"

definition nohit :: "rx \<Rightarrow> jsstring \<Rightarrow> bool" where
  "nohit p s \<longleftrightarrow> (\<forall>u t. s = u @ t \<longrightarrow> \<not> hit p t)"

text \<open>Conditions under which a pass cannot create a match of another pattern: the patterns
  match no empty string, no match starts inside the marker, and a match that runs into a
  marker was already there before the marker replaced a match.\<close>

definition nonnull :: "rx \<Rightarrow> bool" where
  "nonnull p \<longleftrightarrow> [] \<notin> lang p"

definition crossing :: "rx \<Rightarrow> rx \<Rightarrow> bool" where
  "crossing p q \<longleftrightarrow>
     (\<forall>v m rest y. m \<in> lang q \<longrightarrow> hit p (v @ REDACTED @ y) \<longrightarrow> hit p (v @ m @ rest))"

definition marker_inert :: "rx \<Rightarrow> bool" where
  "marker_inert p \<longleftrightarrow> (\<forall>a b y. REDACTED = a @ b \<longrightarrow> b \<noteq> [] \<longrightarrow> \<not> hit p (b @ y))"

text \<open>Concatenation of languages, and the shapes of the ten patterns.\<close>

definition cat :: "jsstring set \<Rightarrow> jsstring set \<Rightarrow> jsstring set" where
  "cat A B = {x @ y | x y. x \<in> A \<and> y \<in> B}"

definition chars_in :: "jsstring set \<Rightarrow> (nat \<Rightarrow> bool) \<Rightarrow> bool" where
  "chars_in A Q \<longleftrightarrow> (\<forall>h\<in>A. \<forall>c\<in>set h. Q c)"

definition first2 :: "jsstring set \<Rightarrow> nat \<Rightarrow> nat \<Rightarrow> bool" where
  "first2 A k0 k1 \<longleftrightarrow> (\<forall>h\<in>A. \<exists>a b r. h = a # b # r \<and> lower a = k0 \<and> lower b = k1)"

text \<open>A code unit that is a lower-case letter, a colon, a slash or a plus sign.\<close>

definition plain :: "nat \<Rightarrow> bool" where
  "plain k \<longleftrightarrow> (97 \<le> k \<and> k \<le> 122) \<or> k = 58 \<or> k = 47 \<or> k = 43"

definition safe :: "nat \<Rightarrow> bool" where
  "safe c \<longleftrightarrow> c \<noteq> 91 \<and> cred_char c"

fun has_pair :: "nat \<Rightarrow> nat \<Rightarrow> jsstring \<Rightarrow> bool" where
  "has_pair k0 k1 [] = False"
| "has_pair k0 k1 [a] = (lower a = k0)"
| "has_pair k0 k1 (a # b # r) = ((lower a = k0 \<and> lower b = k1) \<or> has_pair k0 k1 (b # r))"

definition starts_nonspace :: "rx \<Rightarrow> bool" where
  "starts_nonspace q \<longleftrightarrow> (\<forall>m\<in>lang q. m \<noteq> [] \<and> \<not> is_space (hd m))"

definition kv_like :: "rx \<Rightarrow> nat \<Rightarrow> nat \<Rightarrow> bool" where
  "kv_like p k0 k1 \<longleftrightarrow>
     (\<exists>H. lang p = cat H (cat (lang (PlusC kv_sep)) (lang (StarC kv_val)))
          \<and> chars_in H safe \<and> first2 H k0 k1)"

definition bearer_like :: "rx \<Rightarrow> nat \<Rightarrow> nat \<Rightarrow> bool" where
  "bearer_like p k0 k1 \<longleftrightarrow>
     (\<exists>H. lang p = cat H (lang (PlusC non_space))
          \<and> chars_in H (\<lambda>c. c \<noteq> 91) \<and> first2 H k0 k1)"

definition url_like :: "rx \<Rightarrow> nat \<Rightarrow> nat \<Rightarrow> bool" where
  "url_like p k0 k1 \<longleftrightarrow>
     (\<exists>H. lang p = cat H (cat (lang (PlusC cred_char)) {[64]})
          \<and> chars_in H safe \<and> first2 H k0 k1)"

text \<open>The loop of \<open>redactSecrets\<close> over a list of patterns.\<close>

definition passes :: "rx list \<Rightarrow> jsstring \<Rightarrow> jsstring" where
  "passes ps s = foldl (\<lambda>redacted pattern. replace_all pattern REDACTED redacted) s ps"

fun chain_ok :: "rx list \<Rightarrow> bool" where
  "chain_ok [] = True"
| "chain_ok (p # ps) =
     (nonnull p \<and> marker_inert p \<and> crossing p p \<and> (\<forall>q\<in>set ps. crossing p q \<and> nonnull q) \<and> chain_ok ps)"






text \<open>A place to cut a text that does not lie inside the text of a marker.\<close>

definition cut_ok :: "jsstring \<Rightarrow> jsstring \<Rightarrow> bool" where
  "cut_ok t1 t2 \<longleftrightarrow>
     \<not> (\<exists>x b y z. REDACTED = x @ b \<and> x \<noteq> [] \<and> b \<noteq> [] \<and> t1 = z @ x \<and> t2 = b @ y)"






section \<open>Rate limiter: theorems\<close>

text \<open>
  C5.  Whenever \<open>check(identifier)\<close> returns \<open>allowed = false\<close>, the stored state of the
  limiter is the same after the call as before it: the timestamp is not recorded.
\<close>

theorem check_denied_frame:
  "\<not> allowed (fst (check L now i)) \<Longrightarrow> snd (check L now i) = L"
  by (simp add: check_def Let_def)

theorem check_denied_frame_witness:
  "\<not> allowed (fst (check (snd (check (new_limiter 1 10) 0 (js ''a''))) 1 (js ''a'')))
   \<and> snd (check (snd (check (new_limiter 1 10) 0 (js ''a''))) 1 (js ''a''))
       = snd (check (new_limiter 1 10) 0 (js ''a''))"
proof -
  have d: "\<not> allowed (fst (check (snd (check (new_limiter 1 10) 0 (js ''a''))) 1 (js ''a'')))"
    by (simp add: check_def Let_def new_limiter_def timestamps_of_def)
  from d check_denied_frame [OF d] show ?thesis by simp
qed

subsection \<open>Successive checks within one window\<close>

lemma check_allowed_iff:
  "allowed (fst (check L now i)) \<longleftrightarrow>
     int (length (filter (\<lambda>ts. ts > now - windowMs L) (timestamps_of L i))) < maxRequests L"
  by (simp add: check_def Let_def)

lemma check_params [simp]:
  "maxRequests (snd (check L now i)) = maxRequests L"
  "windowMs (snd (check L now i)) = windowMs L"
  by (simp_all add: check_def Let_def)

lemma check_fresh_allowed:
  assumes "\<forall>x\<in>set (timestamps_of L i). now - x < windowMs L"
    and "int (length (timestamps_of L i)) < maxRequests L"
  shows "allowed (fst (check L now i))"
    and "remaining (fst (check L now i)) = maxRequests L - int (length (timestamps_of L i)) - 1"
    and "timestamps_of (snd (check L now i)) i = timestamps_of L i @ [now]"
proof -
  have f: "filter (\<lambda>ts. ts > now - windowMs L) (timestamps_of L i) = timestamps_of L i"
    using assms(1) by (auto simp: filter_id_conv)
  show "allowed (fst (check L now i))" using assms(2) f by (simp add: check_def Let_def)
  show "remaining (fst (check L now i)) = maxRequests L - int (length (timestamps_of L i)) - 1"
    using assms(2) f by (simp add: check_def Let_def)
  show "timestamps_of (snd (check L now i)) i = timestamps_of L i @ [now]"
    using assms(2) f by (simp add: check_def Let_def timestamps_of_def)
qed

lemma check_full_denied:
  assumes "\<forall>x\<in>set (timestamps_of L i). now - x < windowMs L"
    and "maxRequests L \<le> int (length (timestamps_of L i))"
  shows "\<not> allowed (fst (check L now i))"
    and "remaining (fst (check L now i)) = 0"
proof -
  have f: "filter (\<lambda>ts. ts > now - windowMs L) (timestamps_of L i) = timestamps_of L i"
    using assms(1) by (auto simp: filter_id_conv)
  show "\<not> allowed (fst (check L now i))" using assms(2) f by (simp add: check_def Let_def)
  show "remaining (fst (check L now i)) = 0"
    using assms(2) f by (simp add: check_def Let_def)
qed

lemma check_seq_params [simp]:
  "maxRequests (snd (check_seq L ts i)) = maxRequests L"
  "windowMs (snd (check_seq L ts i)) = windowMs L"
  by (induction ts arbitrary: L) (simp_all add: split_beta Let_def)

lemma check_seq_length [simp]: "length (fst (check_seq L ts i)) = length ts"
  by (induction ts arbitrary: L) (simp_all add: split_beta Let_def)

lemma check_seq_all_allowed:
  assumes "\<forall>x\<in>set (timestamps_of L i) \<union> set ts. \<forall>t\<in>set ts. t - x < windowMs L"
    and "int (length (timestamps_of L i)) + int (length ts) \<le> maxRequests L"
  shows "timestamps_of (snd (check_seq L ts i)) i = timestamps_of L i @ ts
     \<and> (\<forall>k<length ts. allowed (fst (check_seq L ts i) ! k)
           \<and> remaining (fst (check_seq L ts i) ! k)
               = maxRequests L - int (length (timestamps_of L i)) - int k - 1)"
  using assms
proof (induction ts arbitrary: L)
  case Nil
  then show ?case by simp
next
  case (Cons t ts)
  let ?L = "snd (check L t i)"
  have a: "\<forall>x\<in>set (timestamps_of L i). t - x < windowMs L" using Cons.prems(1) by simp
  have b: "int (length (timestamps_of L i)) < maxRequests L" using Cons.prems(2) by simp
  note c = check_fresh_allowed [OF a b]
  have p1: "\<forall>x\<in>set (timestamps_of ?L i) \<union> set ts. \<forall>t\<in>set ts. t - x < windowMs ?L"
    using Cons.prems(1) c(3) by auto
  have p2: "int (length (timestamps_of ?L i)) + int (length ts) \<le> maxRequests ?L"
    using Cons.prems(2) c(3) by simp
  note ih = Cons.IH [OF p1 p2]
  have s: "check_seq L (t # ts) i = (fst (check L t i) # fst (check_seq ?L ts i), snd (check_seq ?L ts i))"
    by (simp add: split_beta Let_def)
  show ?case
  proof (intro conjI allI impI)
    show "timestamps_of (snd (check_seq L (t # ts) i)) i = timestamps_of L i @ t # ts"
      using ih c(3) s by simp
  next
    fix k assume k: "k < length (t # ts)"
    show "allowed (fst (check_seq L (t # ts) i) ! k)"
      using k ih c(1) s by (cases k) auto
    show "remaining (fst (check_seq L (t # ts) i) ! k)
            = maxRequests L - int (length (timestamps_of L i)) - int k - 1"
      using k ih c(2,3) s by (cases k) auto
  qed
qed

lemma check_seq_append:
  "check_seq L (xs @ ys) i =
     (fst (check_seq L xs i) @ fst (check_seq (snd (check_seq L xs i)) ys i),
      snd (check_seq (snd (check_seq L xs i)) ys i))"
  by (induction xs arbitrary: L) (simp_all add: split_beta Let_def)

lemma reset_then_check_allowed:
  "0 < maxRequests L \<Longrightarrow> allowed (fst (check (reset_identifier L i) now i))"
  by (simp add: check_def Let_def reset_identifier_def timestamps_of_def)


text \<open>
  C1 (amended).  For a limiter with \<open>maxRequests = N\<close>, \<open>N \<ge> 1\<close>, no history for the
  identifier, and \<open>N + 1\<close> calls of \<open>check\<close> whose clock values pairwise differ by less than
  \<open>windowMs\<close>: the first \<open>N\<close> calls return \<open>allowed = true\<close> with \<open>remaining\<close> going
  from \<open>N - 1\<close> down to \<open>0\<close>, call \<open>N + 1\<close> returns \<open>allowed = false\<close> and
  \<open>remaining = 0\<close>, and after \<open>reset(identifier)\<close> the next \<open>check\<close> (at any clock value)
  returns \<open>allowed = true\<close>.
\<close>

theorem rate_limit_window:
  assumes m: "maxRequests L = int N" and pos: "0 < N"
    and empty: "requests L i = None"
    and len: "length ts = N"
    and near: "\<forall>x\<in>set (ts @ [t]). \<forall>y\<in>set (ts @ [t]). y - x < windowMs L"
  shows "(\<forall>k<N. allowed (fst (check_seq L (ts @ [t]) i) ! k)
              \<and> remaining (fst (check_seq L (ts @ [t]) i) ! k) = int N - 1 - int k)
       \<and> \<not> allowed (fst (check_seq L (ts @ [t]) i) ! N)
       \<and> remaining (fst (check_seq L (ts @ [t]) i) ! N) = 0
       \<and> allowed (fst (check (reset_identifier (snd (check_seq L (ts @ [t]) i)) i) t' i))"
proof -
  let ?L1 = "snd (check_seq L ts i)"
  have e: "timestamps_of L i = []" using empty by (simp add: timestamps_of_def)
  have a1: "\<forall>x\<in>set (timestamps_of L i) \<union> set ts. \<forall>t\<in>set ts. t - x < windowMs L"
    using near e by simp
  have a2: "int (length (timestamps_of L i)) + int (length ts) \<le> maxRequests L"
    using e len m by simp
  note A = check_seq_all_allowed [OF a1 a2]
  have h: "timestamps_of ?L1 i = ts" using A e by simp
  have b1: "\<forall>x\<in>set (timestamps_of ?L1 i). t - x < windowMs ?L1" using near h by simp
  have b2: "maxRequests ?L1 \<le> int (length (timestamps_of ?L1 i))" using h len m by simp
  note B = check_full_denied [OF b1 b2]
  have s: "fst (check_seq L (ts @ [t]) i) = fst (check_seq L ts i) @ [fst (check ?L1 t i)]"
    by (simp add: check_seq_append split_beta Let_def)
  have first: "\<forall>k<N. allowed (fst (check_seq L (ts @ [t]) i) ! k)
              \<and> remaining (fst (check_seq L (ts @ [t]) i) ! k) = int N - 1 - int k"
    using A e len m s by (simp add: nth_append)
  have nth: "fst (check_seq L (ts @ [t]) i) ! N = fst (check ?L1 t i)"
    using s len by (simp add: nth_append)
  have "0 < maxRequests (snd (check_seq L (ts @ [t]) i))" using m pos by simp
  then have last: "allowed (fst (check (reset_identifier (snd (check_seq L (ts @ [t]) i)) i) t' i))"
    by (rule reset_then_check_allowed)
  from first nth B last show ?thesis by simp
qed

text \<open>The scenario with \<open>N = 2\<close>, checks at 0, 5 and 9 ms, and a check at 12 ms after the reset.\<close>

theorem rate_limit_window_witness:
  "allowed (fst (check_seq (new_limiter 2 60000) ([0, 5] @ [9]) (js ''u1'')) ! 0)
   \<and> remaining (fst (check_seq (new_limiter 2 60000) ([0, 5] @ [9]) (js ''u1'')) ! 0) = 1
   \<and> allowed (fst (check_seq (new_limiter 2 60000) ([0, 5] @ [9]) (js ''u1'')) ! 1)
   \<and> remaining (fst (check_seq (new_limiter 2 60000) ([0, 5] @ [9]) (js ''u1'')) ! 1) = 0
   \<and> \<not> allowed (fst (check_seq (new_limiter 2 60000) ([0, 5] @ [9]) (js ''u1'')) ! 2)
   \<and> remaining (fst (check_seq (new_limiter 2 60000) ([0, 5] @ [9]) (js ''u1'')) ! 2) = 0
   \<and> allowed (fst (check (reset_identifier (snd (check_seq (new_limiter 2 60000) ([0, 5] @ [9]) (js ''u1''))) (js ''u1'')) 12 (js ''u1'')))"
proof -
  have 1: "maxRequests (new_limiter 2 60000) = int 2" by (simp add: new_limiter_def)
  have 2: "0 < (2::nat)" by simp
  have 3: "requests (new_limiter 2 60000) (js ''u1'') = None" by (simp add: new_limiter_def)
  have 4: "length [0, 5 :: int] = 2" by simp
  have 5: "\<forall>x\<in>set ([0, 5] @ [9 :: int]). \<forall>y\<in>set ([0, 5] @ [9]). y - x < windowMs (new_limiter 2 60000)"
    by (simp add: new_limiter_def)
  have 6: "(0::nat) < 2" "(1::nat) < 2" by simp_all
  from rate_limit_window [OF 1 2 3 4 5, where t' = 12] 6 show ?thesis by simp
qed

text \<open>
  C1 as stated fails for \<open>maxRequests = 0\<close>: the first call is denied with
  \<open>remaining = 0\<close>, as claimed for call \<open>N + 1\<close>, but the check after \<open>reset\<close> is denied too.
\<close>

theorem rate_limit_zero_counterexample:
  "\<not> allowed (fst (check_seq (new_limiter 0 60000) [0] (js ''u1'')) ! 0)
   \<and> remaining (fst (check_seq (new_limiter 0 60000) [0] (js ''u1'')) ! 0) = 0
   \<and> \<not> allowed (fst (check (reset_identifier (snd (check_seq (new_limiter 0 60000) [0] (js ''u1''))) (js ''u1'')) 1 (js ''u1'')))"
  by (simp add: new_limiter_def check_def Let_def reset_identifier_def timestamps_of_def)
subsection \<open>Which timestamps are retained\<close>









lemma rl_run_snoc: "rl_run L (ops @ [x]) = rl_step (rl_run L ops) x"
  by (simp add: rl_run_def)


lemma rl_run_params [simp]:
  "maxRequests (rl_run L ops) = maxRequests L" "windowMs (rl_run L ops) = windowMs L"
proof -
  have s: "maxRequests (rl_step L x) = maxRequests L \<and> windowMs (rl_step L x) = windowMs L" for L x
    by (cases x; cases "snd x") (auto simp: check_def Let_def reset_identifier_def cleanup_def)
  show "maxRequests (rl_run L ops) = maxRequests L" "windowMs (rl_run L ops) = windowMs L"
    by (induction ops rule: rev_induct) (simp_all add: rl_run_snoc s, simp_all add: rl_run_def)
qed

lemma rl_inv_len: "rl_inv L now \<Longrightarrow> rl_len L"
  by (simp add: rl_inv_def rl_len_def)













section \<open>Regular expressions: results and languages\<close>

lemma set_results_StarC:
  "set (rx_results (StarC P) s) = {rest. \<exists>m. (\<forall>c\<in>set m. P c) \<and> s = m @ rest}"
proof (induction s)
  case Nil
  then show ?case by auto
next
  case (Cons c cs)
  show ?case
  proof (cases "P c")
    case True
    have "{rest. \<exists>m. (\<forall>c\<in>set m. P c) \<and> c # cs = m @ rest}
        = insert (c # cs) {rest. \<exists>m. (\<forall>c\<in>set m. P c) \<and> cs = m @ rest}" (is "?A = ?B")
    proof (intro set_eqI iffI)
      fix rest assume "rest \<in> ?A"
      then obtain m where m: "\<forall>c\<in>set m. P c" "c # cs = m @ rest" by auto
      show "rest \<in> ?B"
      proof (cases m)
        case Nil then show ?thesis using m by simp
      next
        case (Cons a m') then show ?thesis using m by auto
      qed
    next
      fix rest assume "rest \<in> ?B"
      then consider "rest = c # cs" | m where "\<forall>c\<in>set m. P c" "cs = m @ rest" by auto
      then show "rest \<in> ?A"
      proof cases
        case 1 then show ?thesis by (auto intro: exI [of _ "[]"])
      next
        case 2 then show ?thesis using True by (auto intro: exI [of _ "c # m"])
      qed
    qed
    then show ?thesis using True Cons.IH by simp
  next
    case False
    have "{rest. \<exists>m. (\<forall>c\<in>set m. P c) \<and> c # cs = m @ rest} = {c # cs}"
    proof (intro set_eqI iffI)
      fix rest assume "rest \<in> {rest. \<exists>m. (\<forall>c\<in>set m. P c) \<and> c # cs = m @ rest}"
      then obtain m where m: "\<forall>c\<in>set m. P c" "c # cs = m @ rest" by auto
      then show "rest \<in> {c # cs}" using False by (cases m) auto
    next
      fix rest assume "rest \<in> {c # cs}"
      then show "rest \<in> {rest. \<exists>m. (\<forall>c\<in>set m. P c) \<and> c # cs = m @ rest}"
        by (auto intro: exI [of _ "[]"])
    qed
    then show ?thesis using False by simp
  qed
qed

lemma set_rx_results: "set (rx_results r s) = {rest. \<exists>m\<in>lang r. s = m @ rest}"
proof (induction r arbitrary: s)
  case (Cls P)
  then show ?case by (cases s) auto
next
  case Eps
  then show ?case by simp
next
  case (Seq a b)
  show ?case
  proof (intro set_eqI iffI)
    fix rest assume "rest \<in> set (rx_results (Seq a b) s)"
    then obtain t where t: "t \<in> set (rx_results a s)" "rest \<in> set (rx_results b t)" by auto
    then obtain x y where "x \<in> lang a" "s = x @ t" "y \<in> lang b" "t = y @ rest"
      using Seq.IH by auto
    then show "rest \<in> {rest. \<exists>m\<in>lang (Seq a b). s = m @ rest}"
      by (auto intro!: bexI [of _ "x @ y"])
  next
    fix rest assume "rest \<in> {rest. \<exists>m\<in>lang (Seq a b). s = m @ rest}"
    then obtain x y where xy: "x \<in> lang a" "y \<in> lang b" "s = (x @ y) @ rest" by auto
    then have "y @ rest \<in> set (rx_results a s)" using Seq.IH(1) [of s] by auto
    moreover have "rest \<in> set (rx_results b (y @ rest))" using xy Seq.IH(2) [of "y @ rest"] by auto
    ultimately show "rest \<in> set (rx_results (Seq a b) s)" by auto
  qed
next
  case (Alt a b)
  then show ?case by auto
next
  case (StarC P)
  then show ?case by (simp add: set_results_StarC)
qed

lemma hit_iff: "hit p s \<longleftrightarrow> (\<exists>m rest. m \<in> lang p \<and> s = m @ rest)"
proof -
  have "hit p s \<longleftrightarrow> set (rx_results p s) \<noteq> {}"
    by (cases "rx_results p s") (simp_all add: hit_def rx_exec_def)
  then show ?thesis by (auto simp: set_rx_results)
qed

lemma exec_SomeD: "rx_exec p s = Some rest \<Longrightarrow> \<exists>m\<in>lang p. s = m @ rest"
proof -
  assume "rx_exec p s = Some rest"
  then have "rest \<in> set (rx_results p s)"
    by (cases "rx_results p s") (simp_all add: rx_exec_def)
  then show ?thesis by (simp add: set_rx_results)
qed

lemma exec_None_iff: "rx_exec p s = None \<longleftrightarrow> \<not> hit p s"
  by (simp add: hit_def)

section \<open>One pass of replacement\<close>

lemma nonnull_exec:
  assumes "nonnull q" and "rx_exec q s = Some rest"
  shows "\<exists>m\<in>lang q. m \<noteq> [] \<and> s = m @ rest"
  using exec_SomeD [OF assms(2)] assms(1) by (auto simp: nonnull_def)

lemma replace_all_Nil: "nonnull q \<Longrightarrow> replace_all q rep [] = []"
proof -
  assume n: "nonnull q"
  have "rx_exec q [] = None"
  proof (cases "rx_exec q []")
    case (Some rest)
    from nonnull_exec [OF n this] show ?thesis by simp
  qed simp
  then show ?thesis by simp
qed

lemma replace_all_Cons_None:
  "rx_exec q (c # cs) = None \<Longrightarrow> replace_all q rep (c # cs) = c # replace_all q rep cs"
  by simp

declare replace_all.simps [simp del]

lemma replace_all_Some:
  assumes "nonnull q" and "rx_exec q s = Some rest"
  shows "replace_all q rep s = rep @ replace_all q rep rest"
proof -
  from nonnull_exec [OF assms] obtain m where m: "m \<noteq> []" "s = m @ rest" by auto
  then have l: "length rest < length s" by simp
  then obtain c cs where s: "s = c # cs" by (cases s) auto
  show ?thesis using assms(2) l unfolding s by (simp add: replace_all.simps)
qed

lemma nohit_replace_id: "nohit p s \<Longrightarrow> replace_all p rep s = s"
proof (induction s)
  case Nil
  have "\<not> hit p []" using Nil by (simp add: nohit_def)
  then show ?case by (simp add: hit_def replace_all.simps)
next
  case (Cons c cs)
  have "\<not> hit p (c # cs)" using Cons.prems by (simp add: nohit_def)
  then have e: "rx_exec p (c # cs) = None" by (simp add: hit_def)
  have "nohit p cs" using Cons.prems unfolding nohit_def by (metis append_Cons)
  then show ?case using Cons.IH e by (simp add: replace_all.simps)
qed

lemma unreplace:
  assumes c: "crossing p q" and n: "nonnull q"
  shows "hit p (v @ replace_all q REDACTED t) \<Longrightarrow> hit p (v @ t)"
proof (induction t arbitrary: v)
  case Nil
  then show ?case by (simp add: replace_all_Nil [OF n])
next
  case (Cons a t)
  show ?case
  proof (cases "rx_exec q (a # t)")
    case None
    then have "hit p ((v @ [a]) @ replace_all q REDACTED t)"
      using Cons.prems by (simp add: replace_all_Cons_None)
    then have "hit p ((v @ [a]) @ t)" by (rule Cons.IH)
    then show ?thesis by simp
  next
    case (Some rest)
    from nonnull_exec [OF n Some] obtain m where m: "m \<in> lang q" "a # t = m @ rest" by auto
    have "hit p (v @ REDACTED @ replace_all q REDACTED rest)"
      using Cons.prems replace_all_Some [OF n Some] by simp
    then have "hit p (v @ m @ rest)" using c m(1) unfolding crossing_def by blast
    then show ?thesis using m(2) by simp
  qed
qed

text \<open>Every hit in the output of a pass comes from a hit in its input.\<close>

lemma hit_after_replace:
  assumes c: "crossing p q" and n: "nonnull q" and i: "marker_inert p"
  shows "replace_all q REDACTED s = u @ out \<Longrightarrow> hit p out \<Longrightarrow> \<exists>u' s'. s = u' @ s' \<and> hit p s'"
proof (induction s arbitrary: u rule: length_induct)
  case (1 s)
  show ?case
  proof (cases s)
    case Nil
    then have "out = []" using 1 by (simp add: replace_all_Nil [OF n])
    then show ?thesis using 1 Nil by auto
  next
    case (Cons a t)
    show ?thesis
    proof (cases "rx_exec q s")
      case None
      then have r: "replace_all q REDACTED s = a # replace_all q REDACTED t" using Cons by (simp add: replace_all_Cons_None)
      show ?thesis
      proof (cases u)
        case Nil
        then have "hit p ([a] @ replace_all q REDACTED t)" using 1(2,3) r by simp
        then have "hit p ([a] @ t)" by (rule unreplace [OF c n])
        then show ?thesis using Cons by (auto intro: exI [of _ "[]"])
      next
        case (Cons b u1)
        then have "replace_all q REDACTED t = u1 @ out" using 1(2) r by simp
        moreover have "length t < length s" using \<open>s = a # t\<close> by simp
        ultimately obtain u' s' where "t = u' @ s'" "hit p s'" using 1(1,3) by blast
        then show ?thesis using \<open>s = a # t\<close> by (auto intro: exI [of _ "a # u'"])
      qed
    next
      case (Some rest)
      from nonnull_exec [OF n Some] obtain m where m: "m \<noteq> []" "s = m @ rest" by auto
      have r: "REDACTED @ replace_all q REDACTED rest = u @ out"
        using 1(2) replace_all_Some [OF n Some] by simp
      then consider (in_marker) b where "REDACTED = u @ b" "b \<noteq> []" "out = b @ replace_all q REDACTED rest"
        | (behind) u1 where "replace_all q REDACTED rest = u1 @ out"
        by (auto simp: append_eq_append_conv2) (metis append_Nil2)
      then show ?thesis
      proof cases
        case in_marker
        then show ?thesis using i 1(3) unfolding marker_inert_def by blast
      next
        case behind
        moreover have "length rest < length s" using m by simp
        ultimately obtain u' s' where "rest = u' @ s'" "hit p s'" using 1(1,3) by blast
        then show ?thesis using m(2) by (auto intro: exI [of _ "m @ u'"])
      qed
    qed
  qed
qed

lemma nohit_preserved:
  assumes "crossing p q" "nonnull q" "marker_inert p" "nohit p s"
  shows "nohit p (replace_all q REDACTED s)"
  unfolding nohit_def
proof (intro allI impI)
  fix u t assume "replace_all q REDACTED s = u @ t"
  show "\<not> hit p t"
  proof
    assume "hit p t"
    from hit_after_replace [OF assms(1-3) \<open>replace_all q REDACTED s = u @ t\<close> this]
    show False using assms(4) by (auto simp: nohit_def)
  qed
qed

text \<open>After its own pass a pattern has no hit left.\<close>

lemma nohit_own_pass:
  assumes c: "crossing p p" and n: "nonnull p" and i: "marker_inert p"
  shows "replace_all p REDACTED s = u @ out \<Longrightarrow> \<not> hit p out"
proof (induction s arbitrary: u rule: length_induct)
  case (1 s)
  show ?case
  proof (cases s)
    case Nil
    then have "out = []" using 1 by (simp add: replace_all_Nil [OF n])
    moreover have "\<not> hit p []" using n by (auto simp: hit_iff nonnull_def)
    ultimately show ?thesis by simp
  next
    case (Cons a t)
    show ?thesis
    proof (cases "rx_exec p s")
      case None
      then have r: "replace_all p REDACTED s = a # replace_all p REDACTED t" using Cons by (simp add: replace_all_Cons_None)
      show ?thesis
      proof (cases u)
        case Nil
        show ?thesis
        proof
          assume "hit p out"
          then have "hit p ([a] @ replace_all p REDACTED t)" using 1(2) r Nil by simp
          then have "hit p ([a] @ t)" by (rule unreplace [OF c n])
          then show False using None Cons by (simp add: hit_def)
        qed
      next
        case (Cons b u1)
        then have "replace_all p REDACTED t = u1 @ out" using 1(2) r by simp
        moreover have "length t < length s" using \<open>s = a # t\<close> by simp
        ultimately show ?thesis using 1(1) by blast
      qed
    next
      case (Some rest)
      from nonnull_exec [OF n Some] obtain m where m: "m \<noteq> []" "s = m @ rest" by auto
      have r: "REDACTED @ replace_all p REDACTED rest = u @ out"
        using 1(2) replace_all_Some [OF n Some] by simp
      then consider (in_marker) b where "REDACTED = u @ b" "b \<noteq> []" "out = b @ replace_all p REDACTED rest"
        | (behind) u1 where "replace_all p REDACTED rest = u1 @ out"
        by (auto simp: append_eq_append_conv2) (metis append_Nil2)
      then show ?thesis
      proof cases
        case in_marker
        then show ?thesis using i unfolding marker_inert_def by blast
      next
        case behind
        moreover have "length rest < length s" using m by simp
        ultimately show ?thesis using 1(1) by blast
      qed
    qed
  qed
qed

lemma nohit_after_own_pass:
  assumes "crossing p p" "nonnull p" "marker_inert p"
  shows "nohit p (replace_all p REDACTED s)"
  unfolding nohit_def using nohit_own_pass [OF assms] by blast

section \<open>The shapes of the patterns\<close>

lemma catI: "x \<in> A \<Longrightarrow> y \<in> B \<Longrightarrow> x @ y \<in> cat A B"
  unfolding cat_def by blast

lemma catE: "m \<in> cat A B \<Longrightarrow> (\<And>x y. m = x @ y \<Longrightarrow> x \<in> A \<Longrightarrow> y \<in> B \<Longrightarrow> thesis) \<Longrightarrow> thesis"
  unfolding cat_def by blast

lemma lang_Seq: "lang (Seq a b) = cat (lang a) (lang b)"
  by (simp add: cat_def)

lemma cat_assoc: "cat (cat A B) C = cat A (cat B C)"
  unfolding cat_def by (auto, metis append.assoc, metis append.assoc)

lemma cat_Eps [simp]: "cat A {[]} = A"
  by (auto simp: cat_def)

lemma lang_seqs_Nil [simp]: "lang (seqs []) = {[]}"
  by (simp add: seqs_def)

lemma lang_seqs_Cons [simp]: "lang (seqs (r # rs)) = cat (lang r) (lang (seqs rs))"
  by (simp add: seqs_def cat_def)

lemma lang_PlusC: "lang (PlusC P) = {w. w \<noteq> [] \<and> (\<forall>c\<in>set w. P c)}"
proof (intro set_eqI iffI)
  fix w assume "w \<in> lang (PlusC P)"
  then show "w \<in> {w. w \<noteq> [] \<and> (\<forall>c\<in>set w. P c)}" by (auto simp: PlusC_def)
next
  fix w assume "w \<in> {w. w \<noteq> [] \<and> (\<forall>c\<in>set w. P c)}"
  then obtain c w' where "w = c # w'" "P c" "\<forall>c\<in>set w'. P c" by (cases w) auto
  then have "w = [c] @ w'" "[c] \<in> lang (Cls P)" "w' \<in> lang (StarC P)" by simp_all
  then show "w \<in> lang (PlusC P)" unfolding PlusC_def lang.simps(3) by blast
qed

lemma lang_Opt: "lang (Opt r) = insert [] (lang r)"
  by (auto simp: Opt_def)

lemma lang_chr_i: "lang (chr_i ch) = {[c] | c. lower c = lower (cu ch)}"
  by (simp add: chr_i_def)

lemma lang_lit_i_Nil [simp]: "lang (lit_i []) = {[]}"
  by (simp add: lit_i_def)

lemma lang_lit_i_Cons: "lang (lit_i (ch # w)) = cat (lang (chr_i ch)) (lang (lit_i w))"
  by (simp add: lit_i_def)

lemma lang_lit_i: "lang (lit_i w) = {m. list_all2 (\<lambda>c ch. lower c = lower (cu ch)) m w}"
proof (induction w)
  case Nil
  then show ?case by auto
next
  case (Cons ch w)
  show ?case
    unfolding lang_lit_i_Cons Cons.IH lang_chr_i cat_def
  proof (intro set_eqI iffI)
    fix m assume "m \<in> {x @ y |x y. x \<in> {[c] |c. lower c = lower (cu ch)}
        \<and> y \<in> {m. list_all2 (\<lambda>c ch. lower c = lower (cu ch)) m w}}"
    then show "m \<in> {m. list_all2 (\<lambda>c ch. lower c = lower (cu ch)) m (ch # w)}" by auto
  next
    fix m assume "m \<in> {m. list_all2 (\<lambda>c ch. lower c = lower (cu ch)) m (ch # w)}"
    then obtain z zs where z: "m = [z] @ zs" "lower z = lower (cu ch)"
      "list_all2 (\<lambda>c ch. lower c = lower (cu ch)) zs w"
      by (auto simp: list_all2_Cons2)
    then show "m \<in> {x @ y |x y. x \<in> {[c] |c. lower c = lower (cu ch)}
        \<and> y \<in> {m. list_all2 (\<lambda>c ch. lower c = lower (cu ch)) m w}}" by blast
  qed
qed

lemma js_in_lit_i: "js w \<in> lang (lit_i w)"
  by (simp add: lang_lit_i js_def list_all2_conv_all_nth)

lemma lower_plain_safe: "lower c = k \<Longrightarrow> plain k \<Longrightarrow> safe c"
  unfolding lower_def plain_def safe_def cred_char_def is_space_def cu_def
  by (auto split: if_splits)

lemma chars_in_lit_i:
  "\<forall>ch\<in>set w. plain (lower (cu ch)) \<Longrightarrow> chars_in (lang (lit_i w)) safe"
  unfolding chars_in_def lang_lit_i
proof (intro ballI)
  fix h c assume w: "\<forall>ch\<in>set w. plain (lower (cu ch))"
    and h: "h \<in> {m. list_all2 (\<lambda>c ch. lower c = lower (cu ch)) m w}" and c: "c \<in> set h"
  from c obtain i where i: "i < length h" "c = h ! i" by (auto simp: in_set_conv_nth)
  with h have "i < length w" "lower c = lower (cu (w ! i))"
    by (auto simp: list_all2_conv_all_nth)
  then have "w ! i \<in> set w" "lower c = lower (cu (w ! i))" by simp_all
  then obtain ch where "ch \<in> set w" "lower c = lower (cu ch)" by blast
  then show "safe c" using w lower_plain_safe by blast
qed

lemma chars_in_cat: "chars_in A Q \<Longrightarrow> chars_in B Q \<Longrightarrow> chars_in (cat A B) Q"
  by (auto simp: chars_in_def cat_def)

lemma chars_in_Opt: "chars_in (lang r) Q \<Longrightarrow> chars_in (lang (Opt r)) Q"
  by (auto simp: chars_in_def lang_Opt)

lemma chars_in_Cls: "\<forall>c. P c \<longrightarrow> Q c \<Longrightarrow> chars_in (lang (Cls P)) Q"
  by (auto simp: chars_in_def)

lemma chars_in_StarC: "\<forall>c. P c \<longrightarrow> Q c \<Longrightarrow> chars_in (lang (StarC P)) Q"
  by (auto simp: chars_in_def)

lemma chars_in_PlusC: "\<forall>c. P c \<longrightarrow> Q c \<Longrightarrow> chars_in (lang (PlusC P)) Q"
  by (auto simp: chars_in_def lang_PlusC)

lemma chars_in_mono: "chars_in A Q \<Longrightarrow> \<forall>c. Q c \<longrightarrow> Q' c \<Longrightarrow> chars_in A Q'"
  by (auto simp: chars_in_def)

lemma first2_lit_i: "first2 (lang (lit_i (a # b # w))) (lower (cu a)) (lower (cu b))"
  unfolding first2_def lang_lit_i by (auto simp: list_all2_Cons2)

lemma first2_cat: "first2 A k0 k1 \<Longrightarrow> first2 (cat A B) k0 k1"
  unfolding first2_def cat_def by fastforce

lemma REDACTED_Cons: "REDACTED = 91 # js ''REDACTED]''"
  by (simp add: REDACTED_def js_def cu_def)

lemma append_eq_cases:
  assumes "a @ b = c @ d"
  obtains us where "c = a @ us" "b = us @ d" | us where "a = c @ us" "us @ b = d"
  using assms by (auto simp: append_eq_append_conv2)

lemma prefix_without:
  assumes "m @ r = v @ x # t" and "x \<notin> set m"
  shows "\<exists>v'. v = m @ v'"
proof -
  from assms(1) show ?thesis
  proof (cases rule: append_eq_cases)
    case (1 us) then show ?thesis by blast
  next
    case (2 us)
    show ?thesis
    proof (cases us)
      case Nil then show ?thesis using 2(1) by simp
    next
      case (Cons u us')
      then have "u = x" using 2(2) by simp
      then show ?thesis using 2(1) Cons assms(2) by simp
    qed
  qed
qed

lemma hit_prefix: "m \<in> lang p \<Longrightarrow> hit p (m @ r)"
  by (auto simp: hit_iff)

subsection \<open>Patterns of the shape keyword, separators, value\<close>

lemma kv_like_stable:
  assumes "kv_like p k0 k1" and "hit p (v @ REDACTED @ y)"
  shows "hit p (v @ z)"
proof -
  from assms(1) obtain H where L: "lang p = cat H (cat (lang (PlusC kv_sep)) (lang (StarC kv_val)))"
    and H: "chars_in H safe" unfolding kv_like_def by blast
  from assms(2) obtain m rest where m: "m \<in> lang p" "v @ REDACTED @ y = m @ rest"
    unfolding hit_iff by blast
  from m(1) L obtain h t where ht: "m = h @ t" "h \<in> H" "t \<in> cat (lang (PlusC kv_sep)) (lang (StarC kv_val))"
    by (metis catE)
  from ht(3) obtain a b where ab: "t = a @ b" "a \<in> lang (PlusC kv_sep)" by (metis catE)
  then have hab: "m = h @ a @ b" "h \<in> H" "a \<noteq> []" "\<forall>c\<in>set a. kv_sep c"
    using ht by (simp_all add: lang_PlusC)
  then obtain a0 a' where a: "a = a0 # a'" by (cases a) auto
  let ?m0 = "h @ [a0]"
  have "[a0] \<in> lang (PlusC kv_sep)" "[] \<in> lang (StarC kv_val)" using hab(4) a by (simp_all add: lang_PlusC)
  then have "[a0] @ [] \<in> cat (lang (PlusC kv_sep)) (lang (StarC kv_val))" by (rule catI)
  then have "h @ [a0] @ [] \<in> lang p" unfolding L by (rule catI [OF hab(2)])
  then have m0: "?m0 \<in> lang p" by simp
  have "kv_sep a0" using hab(4) a by simp
  then have "a0 \<noteq> 91" by (auto simp: kv_sep_def is_space_def cu_def)
  moreover have "91 \<notin> set h" using H hab(2) by (auto simp: chars_in_def safe_def)
  ultimately have no: "91 \<notin> set ?m0" by simp
  have "?m0 @ (a' @ b @ rest) = v @ 91 # (js ''REDACTED]'' @ y)"
    using m(2) hab(1) a by (simp add: REDACTED_Cons)
  from prefix_without [OF this no] obtain v' where "v = ?m0 @ v'" by blast
  then have "v @ z = ?m0 @ (v' @ z)" by simp
  then show ?thesis using hit_prefix [OF m0] by metis
qed

lemma kv_like_crossing: "kv_like p k0 k1 \<Longrightarrow> crossing p q"
  unfolding crossing_def using kv_like_stable by blast

subsection \<open>Patterns that end in a run of non-space characters\<close>

lemma bearer_like_stable:
  assumes "bearer_like p k0 k1" and "hit p (v @ REDACTED @ y)" and z: "z \<noteq> []" "\<not> is_space (hd z)"
  shows "hit p (v @ z)"
proof -
  from assms(1) obtain H where L: "lang p = cat H (lang (PlusC non_space))"
    and H: "chars_in H (\<lambda>c. c \<noteq> 91)" unfolding bearer_like_def by blast
  from assms(2) obtain m rest where m: "m \<in> lang p" "v @ REDACTED @ y = m @ rest"
    unfolding hit_iff by blast
  from m(1) L obtain h w where hw0: "m = h @ w" "h \<in> H" "w \<in> lang (PlusC non_space)"
    by (metis catE)
  then have hw: "m = h @ w" "h \<in> H" "w \<noteq> []" "\<forall>c\<in>set w. non_space c"
    by (simp_all add: lang_PlusC)
  then obtain c w' where w: "w = c # w'" by (cases w) auto
  have one: "h @ [x] \<in> lang p" if "\<not> is_space x" for x
  proof -
    have "[x] \<in> lang (PlusC non_space)" using that by (simp add: lang_PlusC non_space_def)
    then show ?thesis unfolding L by (rule catI [OF hw(2)])
  qed
  have "91 \<notin> set h" using H hw(2) by (auto simp: chars_in_def)
  moreover have "h @ (w @ rest) = v @ 91 # (js ''REDACTED]'' @ y)"
    using m(2) hw(1) by (simp add: REDACTED_Cons)
  ultimately have "\<exists>v'. v = h @ v'" by (intro prefix_without)
  then obtain v' where v: "v = h @ v'" by blast
  show ?thesis
  proof (cases v')
    case Nil
    obtain z0 z' where "z = z0 # z'" using z(1) by (cases z) auto
    then have e: "v @ z = (h @ [z0]) @ z'" and "\<not> is_space z0" using v Nil z(2) by simp_all
    then have "hit p ((h @ [z0]) @ z')" by (intro hit_prefix one)
    then show ?thesis unfolding e .
  next
    case (Cons u0 us)
    have "w @ rest = v' @ REDACTED @ y" using m(2) hw(1) v by simp
    then have "u0 = c" using Cons w by simp
    then have "\<not> is_space u0" using hw(4) w by (simp add: non_space_def)
    then have "hit p ((h @ [u0]) @ (us @ z))" by (intro hit_prefix one)
    moreover have "v @ z = (h @ [u0]) @ (us @ z)" using v Cons by simp
    ultimately show ?thesis by simp
  qed
qed

lemma bearer_like_crossing:
  "bearer_like p k0 k1 \<Longrightarrow> starts_nonspace q \<Longrightarrow> crossing p q"
  unfolding crossing_def starts_nonspace_def
proof (intro allI impI)
  fix v m rest y
  assume b: "bearer_like p k0 k1" and q: "\<forall>m\<in>lang q. m \<noteq> [] \<and> \<not> is_space (hd m)"
    and m: "m \<in> lang q" and h: "hit p (v @ REDACTED @ y)"
  have "m @ rest \<noteq> []" "\<not> is_space (hd (m @ rest))" using q m by auto
  from bearer_like_stable [OF b h this] show "hit p (v @ m @ rest)" .
qed

subsection \<open>Connection strings\<close>

lemma url_like_form:
  assumes "url_like q k0 k1" and "m \<in> lang q"
  shows "\<exists>w. m = w @ [64] \<and> w \<noteq> [] \<and> (\<forall>c\<in>set w. cred_char c)"
proof -
  from assms(1) obtain H where L: "lang q = cat H (cat (lang (PlusC cred_char)) {[64]})"
    and H: "chars_in H safe" unfolding url_like_def by blast
  from assms(2) L obtain h t where ht: "m = h @ t" "h \<in> H" "t \<in> cat (lang (PlusC cred_char)) {[64]}"
    by (metis catE)
  from ht(3) obtain r where "t = r @ [64]" "r \<in> lang (PlusC cred_char)"
    by (metis catE singletonD)
  then have "m = h @ r @ [64]" "h \<in> H" "r \<noteq> []" "\<forall>c\<in>set r. cred_char c"
    using ht by (simp_all add: lang_PlusC)
  moreover have "\<forall>c\<in>set h. cred_char c" using H \<open>h \<in> H\<close> by (auto simp: chars_in_def safe_def)
  ultimately have "m = (h @ r) @ [64]" "h @ r \<noteq> []" "\<forall>c\<in>set (h @ r). cred_char c" by auto
  then show ?thesis by blast
qed

lemma url_like_stable:
  assumes "url_like p k0 k1" and "hit p (v @ REDACTED @ y)"
    and w: "w \<noteq> []" "\<forall>c\<in>set w. cred_char c"
  shows "hit p (v @ w @ 64 # rest)"
proof -
  from assms(1) obtain H where L: "lang p = cat H (cat (lang (PlusC cred_char)) {[64]})"
    and H: "chars_in H safe" unfolding url_like_def by blast
  from assms(2) obtain m rest' where m: "m \<in> lang p" "v @ REDACTED @ y = m @ rest'"
    unfolding hit_iff by blast
  from m(1) L obtain h t where ht: "m = h @ t" "h \<in> H" "t \<in> cat (lang (PlusC cred_char)) {[64]}"
    by (metis catE)
  from ht(3) obtain r where "t = r @ [64]" "r \<in> lang (PlusC cred_char)"
    by (metis catE singletonD)
  then have hr: "m = h @ r @ [64]" "h \<in> H" "r \<noteq> []" "\<forall>c\<in>set r. cred_char c"
    using ht by (simp_all add: lang_PlusC)
  have run: "h @ r' @ [64] \<in> lang p" if "r' \<noteq> []" "\<forall>c\<in>set r'. cred_char c" for r'
  proof -
    have "r' \<in> lang (PlusC cred_char)" using that by (simp add: lang_PlusC)
    then have "r' @ [64] \<in> cat (lang (PlusC cred_char)) {[64]}" by (rule catI) simp
    then show ?thesis unfolding L by (rule catI [OF hr(2)])
  qed
  have "91 \<notin> set h" using H hr(2) by (auto simp: chars_in_def safe_def)
  moreover have "h @ (r @ [64] @ rest') = v @ 91 # (js ''REDACTED]'' @ y)"
    using m(2) hr(1) by (simp add: REDACTED_Cons)
  ultimately have "\<exists>v1. v = h @ v1" by (intro prefix_without)
  then obtain v1 where v: "v = h @ v1" by blast
  then have e: "r @ 64 # rest' = v1 @ 91 # (js ''REDACTED]'' @ y)"
    using m(2) hr(1) by (simp add: REDACTED_Cons)
  then show ?thesis
  proof (cases rule: append_eq_cases)
    case (1 us)
    then have "64 # rest' = us @ 91 # (js ''REDACTED]'' @ y)" by simp
    then obtain us' where "us = 64 # us'" by (cases us) auto
    then have e: "v @ w @ 64 # rest = m @ (us' @ w @ 64 # rest)" using v 1(1) hr(1) by simp
    show ?thesis unfolding e by (rule hit_prefix [OF m(1)])
  next
    case (2 us)
    then have "\<forall>c\<in>set v1. cred_char c" using hr(4) by auto
    then have "h @ (v1 @ w) @ [64] \<in> lang p" using w by (intro run) auto
    then have "hit p ((h @ (v1 @ w) @ [64]) @ rest)" by (rule hit_prefix)
    moreover have "v @ w @ 64 # rest = (h @ (v1 @ w) @ [64]) @ rest" using v by simp
    ultimately show ?thesis by simp
  qed
qed

lemma url_like_crossing:
  "url_like p k0 k1 \<Longrightarrow> url_like q j0 j1 \<Longrightarrow> crossing p q"
  unfolding crossing_def
proof (intro allI impI)
  fix v m rest y
  assume p: "url_like p k0 k1" and q: "url_like q j0 j1"
    and m: "m \<in> lang q" and h: "hit p (v @ REDACTED @ y)"
  from url_like_form [OF q m] obtain w where w: "m = w @ [64]" "w \<noteq> []" "\<forall>c\<in>set w. cred_char c"
    by blast
  from url_like_stable [OF p h w(2,3), of rest] show "hit p (v @ m @ rest)" using w(1) by simp
qed

lemma has_pair_suffix: "\<not> has_pair k0 k1 (a @ b) \<Longrightarrow> b \<noteq> [] \<Longrightarrow> \<not> has_pair k0 k1 b"
proof (induction a)
  case Nil
  then show ?case by simp
next
  case (Cons c a)
  then obtain d r where "a @ b = d # r" by (cases "a @ b") auto
  then have "\<not> has_pair k0 k1 (a @ b)" using Cons.prems(1) by simp
  then show ?case using Cons by simp
qed

lemma no_pair_start:
  assumes "\<not> has_pair k0 k1 b" and "b \<noteq> []" and "b @ y = x0 # x1 # r"
  shows "\<not> (lower x0 = k0 \<and> lower x1 = k1)"
proof (cases b)
  case Nil
  then show ?thesis using assms(2) by simp
next
  case (Cons c b')
  then show ?thesis using assms(1,3) by (cases b') auto
qed

lemma first2_marker_inert:
  assumes f: "first2 (lang p) k0 k1" and n: "\<not> has_pair k0 k1 REDACTED"
  shows "marker_inert p"
  unfolding marker_inert_def
proof (intro allI impI)
  fix a b y assume s: "REDACTED = a @ b" and b: "b \<noteq> []"
  show "\<not> hit p (b @ y)"
  proof
    assume "hit p (b @ y)"
    then obtain m rest where m: "m \<in> lang p" "b @ y = m @ rest" unfolding hit_iff by blast
    from f m(1) obtain x0 x1 r where x: "m = x0 # x1 # r" "lower x0 = k0" "lower x1 = k1"
      unfolding first2_def by blast
    have "\<not> has_pair k0 k1 b" using has_pair_suffix n s b by metis
    moreover have "b @ y = x0 # x1 # (r @ rest)" using m(2) x(1) by simp
    ultimately show False using no_pair_start [OF _ b] x(2,3) by blast
  qed
qed

lemma first2_nonnull: "first2 (lang p) k0 k1 \<Longrightarrow> nonnull p"
  unfolding first2_def nonnull_def by blast

lemma first2_starts_nonspace:
  assumes "first2 (lang p) k0 k1" and "plain k0"
  shows "starts_nonspace p"
  unfolding starts_nonspace_def
proof
  fix m assume "m \<in> lang p"
  with assms(1) obtain x0 x1 r where x: "m = x0 # x1 # r" "lower x0 = k0"
    unfolding first2_def by blast
  from lower_plain_safe [OF x(2) assms(2)] have "\<not> is_space x0"
    by (simp add: safe_def cred_char_def)
  then show "m \<noteq> [] \<and> \<not> is_space (hd m)" using x(1) by simp
qed

lemma kv_like_first2: "kv_like p k0 k1 \<Longrightarrow> first2 (lang p) k0 k1"
  unfolding kv_like_def using first2_cat by metis

lemma bearer_like_first2: "bearer_like p k0 k1 \<Longrightarrow> first2 (lang p) k0 k1"
  unfolding bearer_like_def using first2_cat by metis

lemma url_like_first2: "url_like p k0 k1 \<Longrightarrow> first2 (lang p) k0 k1"
  unfolding url_like_def using first2_cat by metis

text \<open>The ten patterns.\<close>

lemmas plain_simps = plain_def lower_def cu_def

lemma kv_like_keyword:
  assumes "\<forall>ch\<in>set (a # b # w). plain (lower (cu ch))"
  shows "kv_like (seqs [lit_i (a # b # w), PlusC kv_sep, StarC kv_val]) (lower (cu a)) (lower (cu b))"
  unfolding kv_like_def
proof (intro exI conjI)
  show "lang (seqs [lit_i (a # b # w), PlusC kv_sep, StarC kv_val])
      = cat (lang (lit_i (a # b # w))) (cat (lang (PlusC kv_sep)) (lang (StarC kv_val)))"
    by simp
  show "chars_in (lang (lit_i (a # b # w))) safe" using assms by (rule chars_in_lit_i)
  show "first2 (lang (lit_i (a # b # w))) (lower (cu a)) (lower (cu b))" by (rule first2_lit_i)
qed

lemma kv_password: "kv_like pat_password 112 97"
  using kv_like_keyword [of "CHR ''p''" "CHR ''a''" "''ssword''"]
  by (simp add: pat_password_def plain_simps)

lemma kv_token: "kv_like pat_token 116 111"
  using kv_like_keyword [of "CHR ''t''" "CHR ''o''" "''ken''"]
  by (simp add: pat_token_def plain_simps)

lemma kv_secret: "kv_like pat_secret 115 101"
  using kv_like_keyword [of "CHR ''s''" "CHR ''e''" "''cret''"]
  by (simp add: pat_secret_def plain_simps)

lemma kv_credential: "kv_like pat_credential 99 114"
  using kv_like_keyword [of "CHR ''c''" "CHR ''r''" "''edential''"]
  by (simp add: pat_credential_def plain_simps)

lemma safe_sep: "c = cu CHR ''_'' \<or> c = cu CHR ''-'' \<Longrightarrow> safe c"
  by (auto simp: safe_def cred_char_def is_space_def cu_def)

lemma kv_api_key: "kv_like pat_api_key 97 112"
  unfolding kv_like_def
proof (intro exI conjI)
  let ?H = "cat (lang (lit_i ''api''))
     (cat (lang (Opt (Cls (\<lambda>c. c = cu CHR ''_'' \<or> c = cu CHR ''-'')))) (lang (lit_i ''key'')))"
  show "lang pat_api_key = cat ?H (cat (lang (PlusC kv_sep)) (lang (StarC kv_val)))"
    by (simp add: pat_api_key_def cat_assoc)
  show "chars_in ?H safe"
    by (intro chars_in_cat chars_in_Opt chars_in_Cls chars_in_lit_i)
       (simp_all add: plain_simps safe_sep)
  have "first2 (lang (lit_i ''api'')) (lower (cu CHR ''a'')) (lower (cu CHR ''p''))"
    by (rule first2_lit_i)
  then show "first2 ?H 97 112" by (intro first2_cat) (simp add: plain_simps)
qed

lemma space_not_bracket: "is_space c \<longrightarrow> c \<noteq> 91"
  by (auto simp: is_space_def)

lemma safe_not_bracket: "safe c \<longrightarrow> c \<noteq> 91"
  by (simp add: safe_def)

lemma bearer_like_scheme:
  assumes "\<forall>ch\<in>set w. plain (lower (cu ch))"
  shows "bearer_like (seqs [lit_i ''authorization:'', StarC is_space, lit_i w, PlusC is_space,
           PlusC non_space]) 97 117"
  unfolding bearer_like_def
proof (intro exI conjI)
  let ?H = "cat (lang (lit_i ''authorization:''))
     (cat (lang (StarC is_space)) (cat (lang (lit_i w)) (lang (PlusC is_space))))"
  show "lang (seqs [lit_i ''authorization:'', StarC is_space, lit_i w, PlusC is_space, PlusC non_space])
      = cat ?H (lang (PlusC non_space))"
    by (simp add: cat_assoc)
  have a: "chars_in (lang (lit_i ''authorization:'')) (\<lambda>c. c \<noteq> 91)"
    by (rule chars_in_mono [OF chars_in_lit_i]) (simp_all add: plain_simps safe_def)
  have b: "chars_in (lang (lit_i w)) (\<lambda>c. c \<noteq> 91)"
    by (rule chars_in_mono [OF chars_in_lit_i [OF assms]]) (simp add: safe_def)
  show "chars_in ?H (\<lambda>c. c \<noteq> 91)"
    by (intro chars_in_cat a b chars_in_StarC chars_in_PlusC allI space_not_bracket)
  have "first2 (lang (lit_i ''authorization:'')) (lower (cu CHR ''a'')) (lower (cu CHR ''u''))"
    by (rule first2_lit_i)
  then show "first2 ?H 97 117" by (intro first2_cat) (simp add: plain_simps)
qed

lemma bearer_bearer: "bearer_like pat_bearer 97 117"
  using bearer_like_scheme [of "''bearer''"] by (simp add: pat_bearer_def plain_simps)

lemma bearer_basic: "bearer_like pat_basic 97 117"
  using bearer_like_scheme [of "''basic''"] by (simp add: pat_basic_def plain_simps)

lemma lower_at: "lower c = lower (cu CHR ''@'') \<longleftrightarrow> c = 64"
  by (auto simp: lower_def cu_def)

lemma lang_at: "lang (chr_i CHR ''@'') = {[64]}"
  by (simp add: lang_chr_i lower_at)

lemma url_postgres: "url_like pat_postgres 112 111"
  unfolding url_like_def
proof (intro exI conjI)
  let ?H = "cat (lang (lit_i ''postgresq'')) (cat (lang (Opt (chr_i CHR ''l''))) (lang (lit_i ''://'')))"
  show "lang pat_postgres = cat ?H (cat (lang (PlusC cred_char)) {[64]})"
    by (simp add: pat_postgres_def cat_assoc lang_at)
  have "chars_in (lang (lit_i ''l'')) safe" by (rule chars_in_lit_i) (simp add: plain_simps)
  then have l: "chars_in (lang (chr_i CHR ''l'')) safe" by (simp add: lang_lit_i_Cons)
  show "chars_in ?H safe"
    by (intro chars_in_cat chars_in_Opt l chars_in_lit_i) (simp_all add: plain_simps)
  have "first2 (lang (lit_i ''postgresq'')) (lower (cu CHR ''p'')) (lower (cu CHR ''o''))"
    by (rule first2_lit_i)
  then show "first2 ?H 112 111" by (intro first2_cat) (simp add: plain_simps)
qed

lemma url_mysql: "url_like pat_mysql 109 121"
  unfolding url_like_def
proof (intro exI conjI)
  show "lang pat_mysql = cat (lang (lit_i ''mysql://'')) (cat (lang (PlusC cred_char)) {[64]})"
    by (simp add: pat_mysql_def lang_at)
  show "chars_in (lang (lit_i ''mysql://'')) safe"
    by (rule chars_in_lit_i) (simp add: plain_simps)
  have "first2 (lang (lit_i ''mysql://'')) (lower (cu CHR ''m'')) (lower (cu CHR ''y''))"
    by (rule first2_lit_i)
  then show "first2 (lang (lit_i ''mysql://'')) 109 121" by (simp add: plain_simps)
qed

lemma url_mongodb: "url_like pat_mongodb 109 111"
  unfolding url_like_def
proof (intro exI conjI)
  let ?H = "cat (lang (lit_i ''mongodb'')) (cat (lang (Opt (lit_i ''+srv''))) (lang (lit_i ''://'')))"
  show "lang pat_mongodb = cat ?H (cat (lang (PlusC cred_char)) {[64]})"
    by (simp add: pat_mongodb_def cat_assoc lang_at)
  show "chars_in ?H safe"
    by (intro chars_in_cat chars_in_Opt chars_in_lit_i) (simp_all add: plain_simps)
  have "first2 (lang (lit_i ''mongodb'')) (lower (cu CHR ''m'')) (lower (cu CHR ''o''))"
    by (rule first2_lit_i)
  then show "first2 ?H 109 111" by (intro first2_cat) (simp add: plain_simps)
qed

section \<open>Secret redaction: theorems\<close>

lemma redactSecrets_passes: "redactSecrets s = passes SENSITIVE_PATTERNS s"
  by (simp add: redactSecrets_def passes_def)

lemma passes_Cons: "passes (p # ps) s = passes ps (replace_all p REDACTED s)"
  by (simp add: passes_def)

lemma passes_Nil: "passes [] s = s"
  by (simp add: passes_def)

lemma nohit_later_passes:
  assumes "marker_inert p" and "\<forall>q\<in>set ps. crossing p q \<and> nonnull q"
  shows "nohit p s \<Longrightarrow> nohit p (passes ps s)"
  using assms(2)
proof (induction ps arbitrary: s)
  case Nil
  then show ?case by (simp add: passes_Nil)
next
  case (Cons q ps)
  have "nohit p (replace_all q REDACTED s)"
    using Cons.prems by (intro nohit_preserved assms(1)) simp_all
  then show ?case using Cons by (simp add: passes_Cons)
qed

lemma chain_nohit: "chain_ok ps \<Longrightarrow> p \<in> set ps \<Longrightarrow> nohit p (passes ps s)"
proof (induction ps arbitrary: s)
  case Nil
  then show ?case by simp
next
  case (Cons q ps)
  show ?case
  proof (cases "p = q")
    case True
    have "nohit q (replace_all q REDACTED s)"
      using Cons.prems(1) by (intro nohit_after_own_pass) simp_all
    then have "nohit q (passes ps (replace_all q REDACTED s))"
      using Cons.prems(1) by (intro nohit_later_passes) simp_all
    then show ?thesis using True by (simp add: passes_Cons)
  next
    case False
    then have "p \<in> set ps" using Cons.prems(2) by simp
    moreover have "chain_ok ps" using Cons.prems(1) by simp
    ultimately show ?thesis using Cons.IH by (simp add: passes_Cons)
  qed
qed

lemma passes_nohit_id: "\<forall>p\<in>set ps. nohit p s \<Longrightarrow> passes ps s = s"
  by (induction ps) (simp_all add: passes_Nil passes_Cons nohit_replace_id)

lemma chain_idempotent: "chain_ok ps \<Longrightarrow> passes ps (passes ps s) = passes ps s"
  by (intro passes_nohit_id ballI chain_nohit)

lemmas kv_facts = kv_password kv_token kv_api_key kv_secret kv_credential
lemmas bearer_facts = bearer_bearer bearer_basic
lemmas url_facts = url_postgres url_mysql url_mongodb

lemmas first2_facts =
  kv_facts [THEN kv_like_first2] bearer_facts [THEN bearer_like_first2] url_facts [THEN url_like_first2]

lemmas nonnull_facts = first2_facts [THEN first2_nonnull]

lemma starts_password: "starts_nonspace pat_password"
  by (rule first2_starts_nonspace [OF kv_password [THEN kv_like_first2]]) (simp add: plain_def)

lemma inert_password: "marker_inert pat_password"
  by (rule first2_marker_inert [OF kv_password [THEN kv_like_first2]])
     (simp add: REDACTED_def js_def cu_def lower_def)

lemma starts_token: "starts_nonspace pat_token"
  by (rule first2_starts_nonspace [OF kv_token [THEN kv_like_first2]]) (simp add: plain_def)

lemma inert_token: "marker_inert pat_token"
  by (rule first2_marker_inert [OF kv_token [THEN kv_like_first2]])
     (simp add: REDACTED_def js_def cu_def lower_def)

lemma starts_api_key: "starts_nonspace pat_api_key"
  by (rule first2_starts_nonspace [OF kv_api_key [THEN kv_like_first2]]) (simp add: plain_def)

lemma inert_api_key: "marker_inert pat_api_key"
  by (rule first2_marker_inert [OF kv_api_key [THEN kv_like_first2]])
     (simp add: REDACTED_def js_def cu_def lower_def)

lemma starts_secret: "starts_nonspace pat_secret"
  by (rule first2_starts_nonspace [OF kv_secret [THEN kv_like_first2]]) (simp add: plain_def)

lemma inert_secret: "marker_inert pat_secret"
  by (rule first2_marker_inert [OF kv_secret [THEN kv_like_first2]])
     (simp add: REDACTED_def js_def cu_def lower_def)

lemma starts_credential: "starts_nonspace pat_credential"
  by (rule first2_starts_nonspace [OF kv_credential [THEN kv_like_first2]]) (simp add: plain_def)

lemma inert_credential: "marker_inert pat_credential"
  by (rule first2_marker_inert [OF kv_credential [THEN kv_like_first2]])
     (simp add: REDACTED_def js_def cu_def lower_def)

lemma starts_bearer: "starts_nonspace pat_bearer"
  by (rule first2_starts_nonspace [OF bearer_bearer [THEN bearer_like_first2]]) (simp add: plain_def)

lemma inert_bearer: "marker_inert pat_bearer"
  by (rule first2_marker_inert [OF bearer_bearer [THEN bearer_like_first2]])
     (simp add: REDACTED_def js_def cu_def lower_def)

lemma starts_basic: "starts_nonspace pat_basic"
  by (rule first2_starts_nonspace [OF bearer_basic [THEN bearer_like_first2]]) (simp add: plain_def)

lemma inert_basic: "marker_inert pat_basic"
  by (rule first2_marker_inert [OF bearer_basic [THEN bearer_like_first2]])
     (simp add: REDACTED_def js_def cu_def lower_def)

lemma starts_postgres: "starts_nonspace pat_postgres"
  by (rule first2_starts_nonspace [OF url_postgres [THEN url_like_first2]]) (simp add: plain_def)

lemma inert_postgres: "marker_inert pat_postgres"
  by (rule first2_marker_inert [OF url_postgres [THEN url_like_first2]])
     (simp add: REDACTED_def js_def cu_def lower_def)

lemma starts_mysql: "starts_nonspace pat_mysql"
  by (rule first2_starts_nonspace [OF url_mysql [THEN url_like_first2]]) (simp add: plain_def)

lemma inert_mysql: "marker_inert pat_mysql"
  by (rule first2_marker_inert [OF url_mysql [THEN url_like_first2]])
     (simp add: REDACTED_def js_def cu_def lower_def)

lemma starts_mongodb: "starts_nonspace pat_mongodb"
  by (rule first2_starts_nonspace [OF url_mongodb [THEN url_like_first2]]) (simp add: plain_def)

lemma inert_mongodb: "marker_inert pat_mongodb"
  by (rule first2_marker_inert [OF url_mongodb [THEN url_like_first2]])
     (simp add: REDACTED_def js_def cu_def lower_def)

lemmas starts_facts = starts_password starts_token starts_api_key starts_secret starts_credential starts_bearer starts_basic starts_postgres starts_mysql starts_mongodb

lemmas inert_facts = inert_password inert_token inert_api_key inert_secret inert_credential inert_bearer inert_basic inert_postgres inert_mysql inert_mongodb

lemmas crossing_facts =
  kv_facts [THEN kv_like_crossing]
  starts_facts [THEN bearer_like_crossing [OF bearer_bearer]]
  starts_facts [THEN bearer_like_crossing [OF bearer_basic]]
  url_facts [THEN url_like_crossing [OF url_postgres]]
  url_facts [THEN url_like_crossing [OF url_mysql]]
  url_facts [THEN url_like_crossing [OF url_mongodb]]

lemma chain_ok_SENSITIVE_PATTERNS: "chain_ok SENSITIVE_PATTERNS"
  unfolding SENSITIVE_PATTERNS_def
  by (simp add: nonnull_facts inert_facts crossing_facts)

text \<open>
  C6.  \<open>redactSecrets\<close> is idempotent: \<open>redactSecrets(redactSecrets(s)) = redactSecrets(s)\<close>
  for every string \<open>s\<close>.
\<close>

theorem redactSecrets_idempotent: "redactSecrets (redactSecrets s) = redactSecrets s"
  unfolding redactSecrets_passes by (rule chain_idempotent [OF chain_ok_SENSITIVE_PATTERNS])

text \<open>Redacting a log line a second time changes nothing.\<close>

theorem redactSecrets_idempotent_witness:
  "redactSecrets (redactSecrets (js ''login token=abc failed'')) = redactSecrets (js ''login token=abc failed'')"
  by (rule redactSecrets_idempotent)

subsection \<open>The marker appears\<close>















subsection \<open>Maskings\<close>






lemma cut_ok_Nil [simp]: "cut_ok [] t2" "cut_ok t1 []"
  by (auto simp: cut_ok_def)







subsection \<open>The first match of a pass\<close>





subsection \<open>Where a match lies\<close>












subsection \<open>A pass over a text with a marker in the place of the assignment\<close>


subsection \<open>A pass over a text in which the key still stands\<close>




subsection \<open>How the matches of the ten patterns end\<close>





















subsection \<open>The keys\<close>









subsection \<open>All passes\<close>











section \<open>SSRF guard: theorems\<close>

lemmas js_simps = js_def cu_def

lemma starts_with_iff: "starts_with h p \<longleftrightarrow> (\<exists>rest. h = p @ rest)"
  unfolding starts_with_def
proof
  assume "take (length p) h = p"
  then have "h = p @ drop (length p) h" by (metis append_take_drop_id)
  then show "\<exists>rest. h = p @ rest" ..
next
  assume "\<exists>rest. h = p @ rest"
  then show "take (length p) h = p" by auto
qed

lemma range_test_open: "range_test (r, False) h \<longleftrightarrow> (\<exists>m\<in>lang r. \<exists>rest. h = m @ rest)"
proof -
  have "range_test (r, False) h \<longleftrightarrow> set (rx_results r h) \<noteq> {}"
    by (cases "rx_results r h") (simp_all add: range_test_def)
  then show ?thesis by (auto simp: set_rx_results)
qed

lemma range_test_closed: "range_test (r, True) h \<longleftrightarrow> h \<in> lang r"
proof -
  have "range_test (r, True) h \<longleftrightarrow> [] \<in> set (rx_results r h)"
    by (simp add: range_test_def list_ex_iff)
  then show ?thesis by (simp add: set_rx_results)
qed

lemma lang_chr: "lang (chr ch) = {[cu ch]}"
  by (simp add: chr_def)

lemma lang_lit: "lang (lit w) = {js w}"
proof (induction w)
  case Nil
  then show ?case by (simp add: lit_def js_def)
next
  case (Cons ch w)
  have "lang (lit (ch # w)) = cat (lang (chr ch)) (lang (lit w))" by (simp add: lit_def)
  then show ?case using Cons by (auto simp: lang_chr cat_def js_def)
qed

lemma range_test_lit: "range_test (lit w, False) h \<longleftrightarrow> starts_with h (js w)"
  by (simp add: range_test_open lang_lit starts_with_iff)

lemma range_test_lit_end: "range_test (lit w, True) h \<longleftrightarrow> h = js w"
  by (simp add: range_test_closed lang_lit)

lemma lower_idem: "lower (lower c) = lower c"
  by (simp add: lower_def)

lemma lowered_toLowerCase: "lowered (toLowerCase h)"
  by (simp add: lowered_def toLowerCase_def lower_idem)

lemma lowered_append: "lowered (a @ b) \<longleftrightarrow> lowered a \<and> lowered b"
  by (auto simp: lowered_def)

lemma lit_i_lowered:
  assumes "m \<in> lang (lit_i w)" and "lowered m" and "map lower (js w) = js w"
  shows "m = js w"
proof -
  from assms(1) have a: "list_all2 (\<lambda>c ch. lower c = lower (cu ch)) m w" by (simp add: lang_lit_i)
  then have l: "length m = length w" by (rule list_all2_lengthD)
  have "m ! i = js w ! i" if "i < length w" for i
  proof -
    have "lower (m ! i) = lower (cu (w ! i))" using a that l by (simp add: list_all2_conv_all_nth)
    moreover have "lower (m ! i) = m ! i" using assms(2) that l
      unfolding lowered_def by (metis nth_map)
    moreover have "lower (cu (w ! i)) = cu (w ! i)" using assms(3) that
      unfolding js_def by (metis length_map nth_map)
    ultimately show ?thesis using that by (simp add: js_def)
  qed
  then show ?thesis using l by (simp add: list_eq_iff_nth_eq js_def)
qed

lemma range_test_lit_i:
  assumes "lowered h" and "map lower (js w) = js w"
  shows "range_test (lit_i w, False) h \<longleftrightarrow> starts_with h (js w)"
proof
  assume "range_test (lit_i w, False) h"
  then obtain m rest where m: "m \<in> lang (lit_i w)" "h = m @ rest" by (auto simp: range_test_open)
  then have "lowered m" using assms(1) by (simp add: lowered_append)
  from lit_i_lowered [OF m(1) this assms(2)] m(2) show "starts_with h (js w)"
    by (auto simp: starts_with_iff)
next
  assume "starts_with h (js w)"
  then show "range_test (lit_i w, False) h"
    using js_in_lit_i [of w] by (auto simp: range_test_open starts_with_iff)
qed

lemma lang_range_172:
  "lang range_172 = {js ''172.'' @ [a, b] @ js ''.'' | a b.
      (a = 49 \<and> 54 \<le> b \<and> b \<le> 57) \<or> (a = 50 \<and> 48 \<le> b \<and> b \<le> 57) \<or> (a = 51 \<and> 48 \<le> b \<and> b \<le> 49)}"
  unfolding range_172_def lang_seqs_Cons lang_seqs_Nil cat_Eps lang_lit lang.simps lang_chr
  by (auto simp: cat_def digit_range_def cu_def)

lemma two_digits_16_31:
  "is_digit a \<and> is_digit b \<and> 16 \<le> 10 * (a - 48) + (b - 48) \<and> 10 * (a - 48) + (b - 48) \<le> 31
   \<longleftrightarrow> (a = 49 \<and> 54 \<le> b \<and> b \<le> 57) \<or> (a = 50 \<and> 48 \<le> b \<and> b \<le> 57) \<or> (a = 51 \<and> 48 \<le> b \<and> b \<le> 49)"
  unfolding is_digit_def by arith

lemma range_test_172: "range_test (range_172, False) h \<longleftrightarrow> starts_with_172_16_31 h"
proof
  assume "range_test (range_172, False) h"
  then obtain a b rest where h: "h = js ''172.'' @ [a, b] @ js ''.'' @ rest"
    and ab: "(a = 49 \<and> 54 \<le> b \<and> b \<le> 57) \<or> (a = 50 \<and> 48 \<le> b \<and> b \<le> 57) \<or> (a = 51 \<and> 48 \<le> b \<and> b \<le> 49)"
    unfolding range_test_open lang_range_172 by auto
  from ab have "is_digit a \<and> is_digit b \<and> 16 \<le> 10 * (a - 48) + (b - 48) \<and> 10 * (a - 48) + (b - 48) \<le> 31"
    by (simp only: two_digits_16_31)
  then show "starts_with_172_16_31 h"
    unfolding h starts_with_172_16_31_def starts_with_def by (simp add: js_simps)
next
  assume a: "starts_with_172_16_31 h"
  then obtain t where t: "h = js ''172.'' @ t" unfolding starts_with_172_16_31_def starts_with_iff by blast
  then have d: "drop 4 h = t" by (simp add: js_def)
  from a obtain a' b' rest where r: "t = a' # b' # cu CHR ''.'' # rest"
    and c: "is_digit a' \<and> is_digit b' \<and> 16 \<le> 10 * (a' - 48) + (b' - 48) \<and> 10 * (a' - 48) + (b' - 48) \<le> 31"
    unfolding starts_with_172_16_31_def d by (auto split: list.splits)
  from c have "(a' = 49 \<and> 54 \<le> b' \<and> b' \<le> 57) \<or> (a' = 50 \<and> 48 \<le> b' \<and> b' \<le> 57) \<or> (a' = 51 \<and> 48 \<le> b' \<and> b' \<le> 49)"
    by (simp only: two_digits_16_31)
  moreover have "h = (js ''172.'' @ [a', b'] @ js ''.'') @ rest" using t r by (simp add: js_def)
  ultimately show "range_test (range_172, False) h"
    unfolding range_test_open lang_range_172 by blast
qed

lemma range_test_fd:
  assumes "lowered h"
  shows "range_test (range_fd, False) h \<longleftrightarrow>
     (starts_with h (js ''fd'') \<and>
      (case drop 2 h of a # b # c # rest \<Rightarrow> hex_digit_i a \<and> hex_digit_i b \<and> c = cu CHR '':'' | _ \<Rightarrow> False))"
proof
  assume "range_test (range_fd, False) h"
  then obtain m rest where m: "m \<in> lang range_fd" "h = m @ rest" unfolding range_test_open by blast
  from m(1) obtain k a b k' where k: "m = k @ [a] @ [b] @ k'" "k \<in> lang (lit_i ''fd'')"
      "hex_digit_i a" "hex_digit_i b" "k' \<in> lang (lit_i '':'')"
    unfolding range_fd_def lang_seqs_Cons lang_seqs_Nil cat_Eps lang.simps cat_def by blast
  have "lowered m" using assms m(2) by (simp add: lowered_append)
  then have "lowered k \<and> lowered ([a] @ [b] @ k')" using k(1) by (simp only: lowered_append)
  then have "lowered k" "lowered k'" by (simp_all only: lowered_append)
  have lw: "map lower (js ''fd'') = js ''fd''" "map lower (js '':'') = js '':''"
    by (simp_all add: js_simps lower_def)
  have "k = js ''fd''" by (rule lit_i_lowered [OF k(2) \<open>lowered k\<close> lw(1)])
  moreover have "k' = js '':''" by (rule lit_i_lowered [OF k(5) \<open>lowered k'\<close> lw(2)])
  ultimately have "k = js ''fd''" "k' = js '':''" by simp_all
  then have "h = js ''fd'' @ [a, b] @ js '':'' @ rest" using k(1) m(2) by simp
  then show "starts_with h (js ''fd'') \<and>
      (case drop 2 h of a # b # c # rest \<Rightarrow> hex_digit_i a \<and> hex_digit_i b \<and> c = cu CHR '':'' | _ \<Rightarrow> False)"
    using k(3,4) by (simp add: starts_with_def js_simps)
next
  assume a: "starts_with h (js ''fd'') \<and>
      (case drop 2 h of a # b # c # rest \<Rightarrow> hex_digit_i a \<and> hex_digit_i b \<and> c = cu CHR '':'' | _ \<Rightarrow> False)"
  then obtain t where t: "h = js ''fd'' @ t" unfolding starts_with_iff by blast
  then have d: "drop 2 h = t" by (simp add: js_def)
  from a obtain a' b' rest where r: "t = a' # b' # cu CHR '':'' # rest"
    and c: "hex_digit_i a'" "hex_digit_i b'"
    unfolding d by (auto split: list.splits)
  have "js ''fd'' @ [a'] @ [b'] @ js '':'' \<in> lang range_fd"
    unfolding range_fd_def lang_seqs_Cons lang_seqs_Nil cat_Eps
    using c by (intro catI js_in_lit_i) simp_all
  moreover have "h = (js ''fd'' @ [a'] @ [b'] @ js '':'') @ rest" using t r by (simp add: js_def)
  ultimately show "range_test (range_fd, False) h" unfolding range_test_open by blast
qed

lemma host_rejected_iff:
  assumes "lowered h"
  shows "host_rejected h \<longleftrightarrow> blocked_host h"
proof -
  have z: "h = js ''0.0.0.0'' \<Longrightarrow> starts_with h (js ''0.'')"
    by (simp add: starts_with_def js_simps)
  have l: "map lower (js ''fe80:'') = js ''fe80:''" "map lower (js ''fc00:'') = js ''fc00:''"
    by (simp_all add: js_simps lower_def)
  show ?thesis
    unfolding host_rejected_def blocked_host_def spec_private_host_def unbracketed_ipv6_private_def
      PRIVATE_IP_RANGES_def list_ex_Cons_iff list_ex_Nil_iff range_test_lit range_test_lit_end
      range_test_172 range_test_fd [OF assms]
      range_test_lit_i [OF assms l(1)] range_test_lit_i [OF assms l(2)]
    using z by blast
qed

lemma validateUrl_Inr_iff:
  "validateUrl new_URL s = Inr u \<longleftrightarrow>
     new_URL s = Some u \<and> protocol u \<in> set ALLOWED_PROTOCOLS
     \<and> \<not> host_rejected (toLowerCase (hostname u))"
  unfolding validateUrl_def host_rejected_def Let_def
  by (cases "new_URL s") auto

lemma validateUrl_isl: "isl (validateUrl new_URL s) \<longleftrightarrow> (\<forall>u. validateUrl new_URL s \<noteq> Inr u)"
  by (cases "validateUrl new_URL s") auto

lemma isUrlSafe_iff: "isUrlSafe new_URL s \<longleftrightarrow> \<not> isl (validateUrl new_URL s)"
  by (cases "validateUrl new_URL s") (auto simp: isUrlSafe_def)

lemma lower_small: "c < 65 \<Longrightarrow> lower c = c"
  by (simp add: lower_def)

lemma starts_with_lower:
  assumes "starts_with h p" and "map lower p = p"
  shows "starts_with (toLowerCase h) p"
proof -
  from assms(1) obtain rest where "h = p @ rest" unfolding starts_with_iff by blast
  then have "toLowerCase h = p @ map lower rest" using assms(2) by (simp add: toLowerCase_def)
  then show ?thesis unfolding starts_with_iff by blast
qed

lemma starts_with_172_lower:
  assumes "starts_with_172_16_31 h"
  shows "starts_with_172_16_31 (toLowerCase h)"
proof -
  from assms obtain t where t: "h = js ''172.'' @ t" unfolding starts_with_172_16_31_def starts_with_iff by blast
  then have d: "drop 4 h = t" by (simp add: js_def)
  from assms obtain a b rest where r: "t = a # b # cu CHR ''.'' # rest"
    and c: "is_digit a" "is_digit b" "16 \<le> 10 * (a - 48) + (b - 48)" "10 * (a - 48) + (b - 48) \<le> 31"
    unfolding starts_with_172_16_31_def d by (auto split: list.splits)
  have "lower a = a" "lower b = b" using c(1,2) by (simp_all add: is_digit_def lower_small)
  then have "toLowerCase h = js ''172.'' @ a # b # cu CHR ''.'' # map lower rest"
    unfolding t r by (simp add: toLowerCase_def js_simps lower_def)
  then show ?thesis using c
    unfolding starts_with_172_16_31_def starts_with_def by (simp add: js_simps)
qed

lemma spec_private_host_lower:
  assumes "spec_private_host h"
  shows "spec_private_host (toLowerCase h)"
proof -
  have l: "map lower (js ''10.'') = js ''10.''" "map lower (js ''192.168.'') = js ''192.168.''"
    "map lower (js ''169.254.'') = js ''169.254.''" "map lower (js ''127.'') = js ''127.''"
    "map lower (js ''0.'') = js ''0.''" "toLowerCase (js ''localhost'') = js ''localhost''"
    by (simp_all add: js_simps lower_def toLowerCase_def)
  show ?thesis
    using assms starts_with_lower [OF _ l(1)] starts_with_lower [OF _ l(2)]
      starts_with_lower [OF _ l(3)] starts_with_lower [OF _ l(4)] starts_with_lower [OF _ l(5)]
      starts_with_172_lower l(6)
    unfolding spec_private_host_def by metis
qed

lemma lower_eq_nonletter: "lower c = x \<Longrightarrow> \<not> (97 \<le> x \<and> x \<le> 122) \<Longrightarrow> c = x"
  by (auto simp: lower_def split: if_splits)

lemma map_lower_eq:
  "map lower xs = p \<Longrightarrow> \<forall>x\<in>set p. \<not> (97 \<le> x \<and> x \<le> 122) \<Longrightarrow> xs = p"
proof (induction xs arbitrary: p)
  case Nil
  then show ?case by simp
next
  case (Cons c cs)
  then obtain x q where p: "p = x # q" and x: "lower c = x" and q: "map lower cs = q" by auto
  have nx: "\<not> (97 \<le> x \<and> x \<le> 122)" and nq: "\<forall>x\<in>set q. \<not> (97 \<le> x \<and> x \<le> 122)"
    using Cons.prems(2) unfolding p by simp_all
  have "c = x" by (rule lower_eq_nonletter [OF x nx])
  moreover have "cs = q" by (rule Cons.IH [OF q nq])
  ultimately show ?case using p by simp
qed

lemma starts_with_unlower:
  assumes "starts_with (toLowerCase h) p" and "\<forall>x\<in>set p. \<not> (97 \<le> x \<and> x \<le> 122)"
  shows "starts_with h p"
proof -
  have "map lower (take (length p) h) = p"
    using assms(1) by (simp add: starts_with_def toLowerCase_def take_map)
  from map_lower_eq [OF this assms(2)] show ?thesis by (simp add: starts_with_def)
qed

lemma starts_with_172_unlower:
  assumes "starts_with_172_16_31 (toLowerCase h)"
  shows "starts_with_172_16_31 h"
proof -
  let ?l = "toLowerCase h"
  from assms obtain t where t: "?l = js ''172.'' @ t"
    unfolding starts_with_172_16_31_def starts_with_iff by blast
  then have d: "drop 4 ?l = t" by (simp add: js_def)
  from assms obtain a b rest where r: "t = a # b # cu CHR ''.'' # rest"
    and c: "is_digit a" "is_digit b" "16 \<le> 10 * (a - 48) + (b - 48)" "10 * (a - 48) + (b - 48) \<le> 31"
    unfolding starts_with_172_16_31_def d by (auto split: list.splits)
  let ?p = "js ''172.'' @ [a, b, cu CHR ''.'']"
  have "starts_with ?l ?p" unfolding starts_with_iff t r by simp
  moreover have "\<forall>x\<in>set ?p. \<not> (97 \<le> x \<and> x \<le> 122)"
    using c(1,2) by (auto simp: js_simps is_digit_def)
  ultimately have "starts_with h ?p" by (rule starts_with_unlower)
  then obtain rest' where "h = ?p @ rest'" unfolding starts_with_iff by blast
  then have "h = js ''172.'' @ a # b # cu CHR ''.'' # rest'" by simp
  then show ?thesis using c
    unfolding starts_with_172_16_31_def starts_with_def by (simp add: js_simps)
qed

lemma spec_private_host_unlower:
  assumes "spec_private_host (toLowerCase h)" and "toLowerCase h \<noteq> js ''localhost''"
  shows "spec_private_host h"
proof -
  have n: "\<forall>x\<in>set (js ''10.''). \<not> (97 \<le> x \<and> x \<le> 122)"
    "\<forall>x\<in>set (js ''192.168.''). \<not> (97 \<le> x \<and> x \<le> 122)"
    "\<forall>x\<in>set (js ''169.254.''). \<not> (97 \<le> x \<and> x \<le> 122)"
    "\<forall>x\<in>set (js ''127.''). \<not> (97 \<le> x \<and> x \<le> 122)"
    "\<forall>x\<in>set (js ''0.''). \<not> (97 \<le> x \<and> x \<le> 122)"
    by (simp_all add: js_simps)
  show ?thesis
    using assms starts_with_unlower [OF _ n(1)] starts_with_unlower [OF _ n(2)]
      starts_with_unlower [OF _ n(3)] starts_with_unlower [OF _ n(4)] starts_with_unlower [OF _ n(5)]
      starts_with_172_unlower
    unfolding spec_private_host_def by metis
qed

lemma split_on_no_sep: "d \<notin> set h \<Longrightarrow> split_on d h = [h]"
  by (induction h) auto

lemma split_on_chars:
  "c \<in> set h \<Longrightarrow> c = d \<or> (\<exists>l\<in>set (split_on d h). c \<in> set l)"
proof (induction h)
  case Nil
  then show ?case by simp
next
  case (Cons x xs)
  show ?case
  proof (cases "x = d")
    case True
    then show ?thesis using Cons by auto
  next
    case False
    obtain l ls where s: "split_on d xs = l # ls" by (cases "split_on d xs"; cases xs) (auto split: if_splits list.splits)
    show ?thesis
    proof (cases "c = x")
      case True
      then show ?thesis using False s by simp
    next
      case c: False
      then have "c \<in> set xs" using Cons.prems by simp
      from Cons.IH [OF this] show ?thesis unfolding s using False s by auto
    qed
  qed
qed

lemma public_domain_name_chars:
  assumes "public_domain_name h"
  shows "cu CHR ''.'' \<in> set h" and "\<forall>c\<in>set h. c = cu CHR ''.'' \<or> label_char c"
proof -
  show "cu CHR ''.'' \<in> set h"
  proof (rule ccontr)
    assume "cu CHR ''.'' \<notin> set h"
    then have "split_on (cu CHR ''.'') h = [h]" by (rule split_on_no_sep)
    then show False using assms by (simp add: public_domain_name_def)
  qed
  show "\<forall>c\<in>set h. c = cu CHR ''.'' \<or> label_char c"
  proof
    fix c assume "c \<in> set h"
    from split_on_chars [OF this, of "cu CHR ''.''"] show "c = cu CHR ''.'' \<or> label_char c"
      using assms by (auto simp: public_domain_name_def Let_def list_all_iff)
  qed
qed

lemma lower_colon: "cu CHR '':'' \<in> set (toLowerCase h) \<Longrightarrow> cu CHR '':'' \<in> set h"
  by (auto simp: toLowerCase_def cu_def dest!: lower_eq_nonletter)

lemma unbracketed_ipv6_private_colon:
  assumes "unbracketed_ipv6_private h \<or> h = js ''[::1]''"
  shows "cu CHR '':'' \<in> set h"
proof -
  have d: "\<And>a b c rest. drop 2 h = a # b # c # rest \<Longrightarrow> c \<in> set h"
    by (metis in_set_dropD list.set_intros(1,2))
  show ?thesis
    using assms unfolding unbracketed_ipv6_private_def starts_with_iff
    by (auto simp: js_simps split: list.splits dest: d)
qed

lemma public_domain_name_not_blocked:
  assumes "public_domain_name h" and "\<not> spec_private_host h"
  shows "\<not> blocked_host (toLowerCase h)"
proof -
  have dot: "cu CHR ''.'' \<in> set (toLowerCase h)"
    using public_domain_name_chars(1) [OF assms(1)]
    by (force simp: toLowerCase_def cu_def lower_def)
  have "cu CHR ''.'' \<notin> set (js ''localhost'')" by (simp add: js_simps)
  then have nl: "toLowerCase h \<noteq> js ''localhost''" using dot by metis
  have a: "\<not> spec_private_host (toLowerCase h)"
    using spec_private_host_unlower [OF _ nl] assms(2) by blast
  have "cu CHR '':'' \<notin> set h"
    using public_domain_name_chars(2) [OF assms(1)]
    by (auto simp: label_char_def is_letter_def is_digit_def cu_def)
  then have "cu CHR '':'' \<notin> set (toLowerCase h)" using lower_colon by blast
  then have b: "\<not> (unbracketed_ipv6_private (toLowerCase h) \<or> toLowerCase h = js ''[::1]'')"
    using unbracketed_ipv6_private_colon by blast
  show ?thesis using a b by (simp add: blocked_host_def)
qed

text \<open>
  C2 (amended).  Let \<open>new URL\<close> parse the string to \<open>u\<close>.  If the scheme is http or https and
  the host name starts with \<open>10.\<close>, \<open>172.16.\<close> to \<open>172.31.\<close>, \<open>192.168.\<close>, \<open>169.254.\<close>,
  \<open>127.\<close> or \<open>0.\<close>, or is \<open>localhost\<close>, then \<open>validateUrl\<close> throws and \<open>isUrlSafe\<close> is false.
  If the scheme is not http or https, or the string does not parse, \<open>validateUrl\<close> throws.
  If the scheme is http or https and the host name is a public domain name that does not
  start with one of these prefixes, \<open>validateUrl\<close> returns \<open>u\<close> and \<open>isUrlSafe\<close> is true.
\<close>

theorem validateUrl_hosts_and_schemes:
  "(new_URL s = Some u \<and> protocol u \<in> {js ''http:'', js ''https:''} \<and> spec_private_host (hostname u)
      \<longrightarrow> isl (validateUrl new_URL s) \<and> \<not> isUrlSafe new_URL s)
   \<and> (new_URL s = Some u \<and> protocol u \<notin> {js ''http:'', js ''https:''}
      \<longrightarrow> isl (validateUrl new_URL s) \<and> \<not> isUrlSafe new_URL s)
   \<and> (new_URL s = None \<longrightarrow> isl (validateUrl new_URL s) \<and> \<not> isUrlSafe new_URL s)
   \<and> (new_URL s = Some u \<and> protocol u \<in> {js ''http:'', js ''https:''}
        \<and> public_domain_name (hostname u) \<and> \<not> spec_private_host (hostname u)
      \<longrightarrow> validateUrl new_URL s = Inr u \<and> isUrlSafe new_URL s)"
proof (intro conjI impI)
  assume a: "new_URL s = Some u \<and> protocol u \<in> {js ''http:'', js ''https:''} \<and> spec_private_host (hostname u)"
  then have "blocked_host (toLowerCase (hostname u))"
    using spec_private_host_lower by (simp add: blocked_host_def)
  then have "host_rejected (toLowerCase (hostname u))"
    by (simp add: host_rejected_iff [OF lowered_toLowerCase])
  then have "\<forall>u'. validateUrl new_URL s \<noteq> Inr u'" using a by (auto simp: validateUrl_Inr_iff)
  then show "isl (validateUrl new_URL s)" "\<not> isUrlSafe new_URL s"
    by (simp_all add: validateUrl_isl isUrlSafe_iff)
next
  assume a: "new_URL s = Some u \<and> protocol u \<notin> {js ''http:'', js ''https:''}"
  then have "\<forall>u'. validateUrl new_URL s \<noteq> Inr u'"
    by (auto simp: validateUrl_Inr_iff ALLOWED_PROTOCOLS_def)
  then show "isl (validateUrl new_URL s)" "\<not> isUrlSafe new_URL s"
    by (simp_all add: validateUrl_isl isUrlSafe_iff)
next
  assume a: "new_URL s = None"
  then have "\<forall>u'. validateUrl new_URL s \<noteq> Inr u'" by (simp add: validateUrl_Inr_iff)
  then show "isl (validateUrl new_URL s)" "\<not> isUrlSafe new_URL s"
    by (simp_all add: validateUrl_isl isUrlSafe_iff)
next
  assume a: "new_URL s = Some u \<and> protocol u \<in> {js ''http:'', js ''https:''}
        \<and> public_domain_name (hostname u) \<and> \<not> spec_private_host (hostname u)"
  then have "\<not> blocked_host (toLowerCase (hostname u))"
    by (simp add: public_domain_name_not_blocked)
  then have "\<not> host_rejected (toLowerCase (hostname u))"
    by (simp add: host_rejected_iff [OF lowered_toLowerCase])
  then show v: "validateUrl new_URL s = Inr u"
    using a by (simp add: validateUrl_Inr_iff ALLOWED_PROTOCOLS_def)
  then show "isUrlSafe new_URL s" by (simp add: isUrlSafe_def)
qed

lemmas host_defs = spec_private_host_def blocked_host_def unbracketed_ipv6_private_def
  starts_with_def starts_with_172_16_31_def is_digit_def hex_digit_i_def digit_range_def
  toLowerCase_def lower_def ascii_def js_def cu_def

text \<open>
  The examples of the specification: a private address, a file URL, a string that is no
  URL, a public domain.
\<close>

theorem validateUrl_hosts_and_schemes_witness:
  "isl (validateUrl parse_private (js ''http://192.168.1.1/internal''))
   \<and> \<not> isUrlSafe parse_private (js ''http://192.168.1.1/internal'')
   \<and> isl (validateUrl parse_file (js ''file:///etc/passwd''))
   \<and> \<not> isUrlSafe parse_file (js ''file:///etc/passwd'')
   \<and> isl (validateUrl parse_file (js ''not-a-url''))
   \<and> \<not> isUrlSafe parse_file (js ''not-a-url'')
   \<and> validateUrl parse_public (js ''https://example.com/public'')
        = Inr \<lparr>protocol = js ''https:'', hostname = js ''example.com''\<rparr>
   \<and> isUrlSafe parse_public (js ''https://example.com/public'')"
proof -
  let ?a = "\<lparr>protocol = js ''http:'', hostname = js ''192.168.1.1''\<rparr>"
  let ?b = "\<lparr>protocol = js ''file:'', hostname = []\<rparr>"
  let ?c = "\<lparr>protocol = js ''https:'', hostname = js ''example.com''\<rparr>"
  have 1: "parse_private (js ''http://192.168.1.1/internal'') = Some ?a
      \<and> protocol ?a \<in> {js ''http:'', js ''https:''} \<and> spec_private_host (hostname ?a)"
    by (simp add: parse_private_def host_defs)
  have 2: "parse_file (js ''file:///etc/passwd'') = Some ?b
      \<and> protocol ?b \<notin> {js ''http:'', js ''https:''}"
    by (simp add: parse_file_def js_simps)
  have 4: "parse_file (js ''not-a-url'') = None"
    by (simp add: parse_file_def js_simps)
  have p: "public_domain_name (js ''example.com'')"
    by (simp add: public_domain_name_def Let_def label_char_def is_letter_def is_digit_def
        toLowerCase_def lower_def js_simps)
  have 3: "parse_public (js ''https://example.com/public'') = Some ?c
      \<and> protocol ?c \<in> {js ''http:'', js ''https:''}
      \<and> public_domain_name (hostname ?c) \<and> \<not> spec_private_host (hostname ?c)"
    using p by (simp add: parse_public_def host_defs)
  have a: "isl (validateUrl parse_private (js ''http://192.168.1.1/internal''))
      \<and> \<not> isUrlSafe parse_private (js ''http://192.168.1.1/internal'')"
    by (rule validateUrl_hosts_and_schemes [of parse_private "js ''http://192.168.1.1/internal''" ?a,
          THEN conjunct1, THEN mp, OF 1])
  have b: "isl (validateUrl parse_file (js ''file:///etc/passwd''))
      \<and> \<not> isUrlSafe parse_file (js ''file:///etc/passwd'')"
    by (rule validateUrl_hosts_and_schemes [of parse_file "js ''file:///etc/passwd''" ?b,
          THEN conjunct2, THEN conjunct1, THEN mp, OF 2])
  have c: "isl (validateUrl parse_file (js ''not-a-url''))
      \<and> \<not> isUrlSafe parse_file (js ''not-a-url'')"
    by (rule validateUrl_hosts_and_schemes [of parse_file "js ''not-a-url''",
          THEN conjunct2, THEN conjunct2, THEN conjunct1, THEN mp, OF 4])
  have d: "validateUrl parse_public (js ''https://example.com/public'') = Inr ?c
      \<and> isUrlSafe parse_public (js ''https://example.com/public'')"
    by (rule validateUrl_hosts_and_schemes [of parse_public "js ''https://example.com/public''" ?c,
          THEN conjunct2, THEN conjunct2, THEN conjunct2, THEN mp, OF 3])
  from a b c d show ?thesis by simp
qed

lemmas eval_defs = validateUrl_def isUrlSafe_def ALLOWED_PROTOCOLS_def PRIVATE_IP_RANGES_def
  range_172_def range_fd_def range_test_def seqs_def lit_def lit_i_def chr_def chr_i_def digit_range_def hex_digit_i_def
  toLowerCase_def lower_def js_def cu_def Let_def

text \<open>
  C2 as stated fails for a public domain whose name begins like a private address: the
  patterns are matched against the text of the host name, so \<open>0.pool.ntp.org\<close> is rejected
  by \<open>/^0\./\<close>.
\<close>

theorem public_domain_counterexample:
  "parse_ntp (js ''http://0.pool.ntp.org/'')
      = Some \<lparr>protocol = js ''http:'', hostname = js ''0.pool.ntp.org''\<rparr>
   \<and> validateUrl parse_ntp (js ''http://0.pool.ntp.org/'')
      = Inl (SSRFError (js ''Private IP range access is not allowed''))
   \<and> \<not> isUrlSafe parse_ntp (js ''http://0.pool.ntp.org/'')"
  by (simp add: parse_ntp_def eval_defs)

text \<open>
  C3.  The host name of \<open>http://[fe80::1]/\<close> is \<open>[fe80::1]\<close>, with its brackets, which
  \<open>/^fe80:/i\<close> does not match: \<open>validateUrl\<close> returns the URL and \<open>isUrlSafe\<close> is true.  Only
  the loopback \<open>[::1]\<close> is caught, by the comparison that follows the patterns.
\<close>

theorem ipv6_link_local_accepted:
  "validateUrl parse_link_local (js ''http://[fe80::1]/'')
      = Inr \<lparr>protocol = js ''http:'', hostname = js ''[fe80::1]''\<rparr>
   \<and> isUrlSafe parse_link_local (js ''http://[fe80::1]/'')
   \<and> validateUrl parse_loopback6 (js ''http://[::1]/'')
      = Inl (SSRFError (js ''IPv6 localhost access is not allowed''))"
  by (simp add: parse_link_local_def parse_loopback6_def eval_defs)

section \<open>Client identifier: theorems\<close>

text \<open>
  C10 (amended).  A request with neither an \<open>x-forwarded-for\<close> nor an \<open>x-real-ip\<close> header
  gets the identifier \<open>unknown\<close>, so two such requests are checked against the same entry
  of the limiter; when \<open>x-forwarded-for\<close> is present and not empty, the identifier is its
  first comma-separated entry, trimmed.
\<close>

theorem client_identifier:
  "(headers_get (js ''x-forwarded-for'') = None \<and> headers_get (js ''x-real-ip'') = None
      \<longrightarrow> getClientIdentifier headers_get = js ''unknown'')
   \<and> (headers_get (js ''x-forwarded-for'') = None \<and> headers_get (js ''x-real-ip'') = None
      \<and> headers_get' (js ''x-forwarded-for'') = None \<and> headers_get' (js ''x-real-ip'') = None
      \<longrightarrow> check L now (getClientIdentifier headers_get) = check L now (getClientIdentifier headers_get'))
   \<and> (headers_get (js ''x-forwarded-for'') = Some f \<and> f \<noteq> []
      \<longrightarrow> getClientIdentifier headers_get = trim (split_comma_first f))"
  by (simp add: getClientIdentifier_def Let_def)

theorem client_identifier_witness:
  "getClientIdentifier headers_none = js ''unknown''
   \<and> check (new_limiter 1 10) 0 (getClientIdentifier headers_none)
       = check (new_limiter 1 10) 0 (getClientIdentifier headers_none)
   \<and> getClientIdentifier headers_forwarded = js ''203.0.113.7''"
proof -
  have 1: "headers_none (js ''x-forwarded-for'') = None \<and> headers_none (js ''x-real-ip'') = None"
    by (simp add: headers_none_def)
  have 2: "headers_forwarded (js ''x-forwarded-for'') = Some (js '' 203.0.113.7 , 10.0.0.1'')
      \<and> js '' 203.0.113.7 , 10.0.0.1'' \<noteq> []"
    by (simp add: headers_forwarded_def js_simps)
  have 3: "trim (split_comma_first (js '' 203.0.113.7 , 10.0.0.1'')) = js ''203.0.113.7''"
    by (simp add: trim_def split_comma_first_def is_space_def js_simps)
  from client_identifier [of headers_none headers_none "new_limiter 1 10" 0]
       client_identifier [of headers_forwarded _ _ _ "js '' 203.0.113.7 , 10.0.0.1''"] 1 2 3
  show ?thesis by simp
qed

text \<open>
  C10 as stated fails for a header that is present but empty: the test \<open>if (forwarded)\<close>
  is false for the empty string, and the identifier is taken from \<open>x-real-ip\<close>.
\<close>

theorem empty_forwarded_counterexample:
  "headers_empty_forwarded (js ''x-forwarded-for'') = Some []
   \<and> getClientIdentifier headers_empty_forwarded = js ''198.51.100.4''
   \<and> trim (split_comma_first []) = []"
  by (simp add: getClientIdentifier_def headers_empty_forwarded_def Let_def trim_def
      split_comma_first_def js_simps)


section \<open>Logger: theorems\<close>




section \<open>Error envelope: theorems\<close>









end
